theory Spec2Isabelle
  imports Complex_Main "HOL-Library.Log_Nat" "HOL-Library.Multiset" "HOL-Library.Sublist"
begin

section \<open>Go values used by the server\<close>

text \<open>
  The server is \<^verbatim>\<open>server.go\<close>: an HTTP handler that counts the pages of a PDF with
  Ghostscript, converts every page to three JPEGs with two conversion workers, and uploads
  the JPEGs to S3 with ten upload workers. Go strings are byte strings (\<open>string\<close>), Go
  \<^verbatim>\<open>int\<close> is the 64-bit two's complement integer of the deployment platform, modelled as
  an \<open>int\<close> with the wrap-around written out, and an \<^verbatim>\<open>error\<close> is a value of the
  datatype below (\<open>None\<close> of \<open>error option\<close> is Go's \<^verbatim>\<open>nil\<close>).
\<close>

datatype error =
    ErrorString string  \<comment> \<open>\<^verbatim>\<open>errors.New(text)\<close>\<close>
  | ExitError           \<comment> \<open>a command of \<^verbatim>\<open>os/exec\<close> that could not run or exited non-zero\<close>
  | ErrSyntax           \<comment> \<open>\<^verbatim>\<open>strconv.ErrSyntax\<close>\<close>
  | ErrRange            \<comment> \<open>\<^verbatim>\<open>strconv.ErrRange\<close>\<close>
  | PathError           \<comment> \<open>a failure of \<^verbatim>\<open>os.Open\<close>, \<^verbatim>\<open>Stat\<close>, \<^verbatim>\<open>os.Create\<close> or \<^verbatim>\<open>io.Copy\<close>\<close>
  | S3Error             \<comment> \<open>a failure reported by the S3 client\<close>

abbreviation NL :: char where
  "NL \<equiv> CHR 0x0A"

definition wrap64 :: "int \<Rightarrow> int" where
  "wrap64 i = (i + 2 ^ 63) mod 2 ^ 64 - 2 ^ 63"

subsection \<open>Package strings\<close>

definition strings_Trim :: "string \<Rightarrow> string \<Rightarrow> string" where
  "strings_Trim s cutset =
     rev (dropWhile (\<lambda>c. c \<in> set cutset) (rev (dropWhile (\<lambda>c. c \<in> set cutset) s)))"

fun strings_Contains :: "string \<Rightarrow> string \<Rightarrow> bool" where
  "strings_Contains [] substr = (substr = [])"
| "strings_Contains (c # s) substr = (prefix substr (c # s) \<or> strings_Contains s substr)"

text \<open>
  \<^verbatim>\<open>strings.Replace(s, old, new, n)\<close> for a non-empty \<open>old\<close> and \<open>n \<ge> 0\<close>: the first
  \<open>n\<close> non-overlapping occurrences of \<open>old\<close>, from the left, are replaced.
\<close>

fun strings_Replace :: "string \<Rightarrow> string \<Rightarrow> string \<Rightarrow> nat \<Rightarrow> string" where
  "strings_Replace s old new 0 = s"
| "strings_Replace [] old new (Suc n) = []"
| "strings_Replace (c # s) old new (Suc n) =
     (if prefix old (c # s) then new @ strings_Replace (drop (length old) (c # s)) old new n
      else c # strings_Replace s old new (Suc n))"

subsection \<open>Package strconv\<close>

definition is_digit :: "char \<Rightarrow> bool" where
  "is_digit c = (48 \<le> (of_char c :: nat) \<and> (of_char c :: nat) \<le> 57)"

definition digit_val :: "char \<Rightarrow> int" where
  "digit_val c = int (of_char c) - 48"

text \<open>
  \<^verbatim>\<open>strconv.ParseUint(s, 10, 64)\<close>: the scan stops at the first byte that is not a decimal
  digit, or as soon as the value leaves the unsigned 64-bit range.
\<close>

fun ParseUint_loop :: "string \<Rightarrow> int \<Rightarrow> error + int" where
  "ParseUint_loop [] n = Inr n"
| "ParseUint_loop (d # s) n =
     (if \<not> is_digit d then Inl ErrSyntax
      else if n * 10 + digit_val d > 2 ^ 64 - 1 then Inl ErrRange
      else ParseUint_loop s (n * 10 + digit_val d))"

definition ParseUint :: "string \<Rightarrow> error + int" where
  "ParseUint s = (if s = [] then Inl ErrSyntax else ParseUint_loop s 0)"

text \<open>\<^verbatim>\<open>strconv.ParseInt(s, 10, 0)\<close>, bit size 0 being the 64 bits of \<^verbatim>\<open>int\<close>.\<close>

definition ParseInt :: "string \<Rightarrow> error + int" where
  "ParseInt s0 =
     (if s0 = [] then Inl ErrSyntax
      else let neg = (hd s0 = CHR ''-'');
               s = (if hd s0 = CHR ''+'' \<or> hd s0 = CHR ''-'' then tl s0 else s0)
           in case ParseUint s of
                Inl e \<Rightarrow> Inl e
              | Inr un \<Rightarrow>
                  if \<not> neg \<and> un \<ge> 2 ^ 63 then Inl ErrRange
                  else if neg \<and> un > 2 ^ 63 then Inl ErrRange
                  else Inr (if neg then - un else un))"

text \<open>The decimal rendering of an integer, as the verb \<^verbatim>\<open>%d\<close> prints it.\<close>

definition digit_char :: "nat \<Rightarrow> char" where
  "digit_char d = char_of (48 + d)"

function nat_to_dec :: "nat \<Rightarrow> string" where
  "nat_to_dec n =
     (if n < 10 then [digit_char n] else nat_to_dec (n div 10) @ [digit_char (n mod 10)])"
  by pat_completeness auto
termination by (relation "measure id") auto

declare nat_to_dec.simps [simp del]

definition itoa :: "int \<Rightarrow> string" where
  "itoa i = (if i < 0 then CHR ''-'' # nat_to_dec (nat (- i)) else nat_to_dec (nat i))"

text \<open>The value of a string of decimal digits read from the left, starting from \<open>n\<close>.\<close>

fun dec_value :: "int \<Rightarrow> string \<Rightarrow> int" where
  "dec_value n [] = n"
| "dec_value n (c # s) = dec_value (n * 10 + digit_val c) s"

subsection \<open>Package fmt\<close>

text \<open>
  \<^verbatim>\<open>fmt.Sprintf\<close> on the fragment of format strings made of literal bytes, \<^verbatim>\<open>%%\<close> and
  the plain verbs \<^verbatim>\<open>%d\<close>, \<^verbatim>\<open>%s\<close>, \<^verbatim>\<open>%v\<close> and \<^verbatim>\<open>%T\<close>, applied to integer and string
  operands. A verb with the wrong operand prints \<^verbatim>\<open>%!verb(type=value)\<close>, a verb with no
  operand left prints \<^verbatim>\<open>%!verb(MISSING)\<close>, operands left over are listed in
  \<^verbatim>\<open>%!(EXTRA type=value, ...)\<close>, and a lone \<^verbatim>\<open>%\<close> at the end prints \<^verbatim>\<open>%!(NOVERB)\<close>.
  The result is \<open>None\<close> when the format string leaves the fragment (flags, widths,
  precisions, argument indexes, other verbs).
\<close>

datatype arg = IntArg int | StrArg string

fun type_name :: "arg \<Rightarrow> string" where
  "type_name (IntArg i) = ''int''"
| "type_name (StrArg s) = ''string''"

fun print_v :: "arg \<Rightarrow> string" where
  "print_v (IntArg i) = itoa i"
| "print_v (StrArg s) = s"

definition bad_verb :: "char \<Rightarrow> arg \<Rightarrow> string" where
  "bad_verb verb a = ''%!'' @ [verb] @ ''('' @ type_name a @ ''='' @ print_v a @ '')''"

definition is_letter :: "char \<Rightarrow> bool" where
  "is_letter c = ((65 \<le> (of_char c :: nat) \<and> (of_char c :: nat) \<le> 90) \<or>
                  (97 \<le> (of_char c :: nat) \<and> (of_char c :: nat) \<le> 122))"

fun printArg :: "arg \<Rightarrow> char \<Rightarrow> string option" where
  "printArg a verb =
     (if verb = CHR ''T'' then Some (type_name a)
      else if verb = CHR ''v'' then Some (print_v a)
      else if verb = CHR ''d'' then
        (case a of IntArg i \<Rightarrow> Some (itoa i) | StrArg s \<Rightarrow> Some (bad_verb verb a))
      else if verb = CHR ''s'' then
        (case a of StrArg s \<Rightarrow> Some s | IntArg i \<Rightarrow> Some (bad_verb verb a))
      else None)"

fun extra_args :: "arg list \<Rightarrow> string" where
  "extra_args [] = []"
| "extra_args [a] = type_name a @ ''='' @ print_v a"
| "extra_args (a # b # as) = type_name a @ ''='' @ print_v a @ '', '' @ extra_args (b # as)"

fun Sprintf :: "string \<Rightarrow> arg list \<Rightarrow> string option" where
  "Sprintf [] [] = Some []"
| "Sprintf [] (a # as) = Some (''%!(EXTRA '' @ extra_args (a # as) @ '')'')"
| "Sprintf [c] as =
     (if c = CHR ''%'' then map_option ((@) ''%!(NOVERB)'') (Sprintf [] as)
      else map_option ((#) c) (Sprintf [] as))"
| "Sprintf (c # verb # format) as =
     (if c \<noteq> CHR ''%'' then map_option ((#) c) (Sprintf (verb # format) as)
      else if verb = CHR ''%'' then map_option ((#) (CHR ''%'')) (Sprintf format as)
      else if \<not> is_letter verb then None
      else (case as of
              [] \<Rightarrow> map_option ((@) (''%!'' @ [verb] @ ''(MISSING)'')) (Sprintf format [])
            | a # rest \<Rightarrow>
                (case printArg a verb of
                   None \<Rightarrow> None
                 | Some out \<Rightarrow> map_option ((@) out) (Sprintf format rest))))"

subsection \<open>float64 arithmetic\<close>

text \<open>
  A finite \<^verbatim>\<open>float64\<close> is the rational number it denotes. Every operation rounds its
  exact result to the nearest number with a 53-bit significand, ties to the even
  significand. The quotients computed by the server lie between \<open>2\<^sup>-\<^sup>6\<^sup>4\<close> and \<open>2\<^sup>6\<^sup>4\<close>,
  far from the exponent limits, so neither overflow nor subnormal numbers are modelled.
\<close>

type_synonym float64 = rat

text \<open>\<open>ilog2 x\<close> is the exponent \<open>e\<close> with \<open>2\<^sup>e \<le> x < 2\<^sup>e\<^sup>+\<^sup>1\<close>, for \<open>x > 0\<close>.\<close>

definition ilog2 :: "rat \<Rightarrow> int" where
  "ilog2 x =
     (let d = bitlen (fst (quotient_of x)) - bitlen (snd (quotient_of x))
      in if power_int 2 d \<le> x then d else d - 1)"

definition round_half_even :: "rat \<Rightarrow> int" where
  "round_half_even y =
     (let f = \<lfloor>y\<rfloor>; r = y - of_int f
      in if r < 1 / 2 then f else if 1 / 2 < r then f + 1 else if even f then f else f + 1)"

definition f64_round :: "rat \<Rightarrow> float64" where
  "f64_round x =
     (if x = 0 then 0
      else let ulp = power_int 2 (ilog2 \<bar>x\<bar> - 52)
           in sgn x * of_int (round_half_even (\<bar>x\<bar> / ulp)) * ulp)"

definition float64_of_int :: "int \<Rightarrow> float64" where
  "float64_of_int i = f64_round (of_int i)"

definition f64_div :: "float64 \<Rightarrow> float64 \<Rightarrow> float64" where
  "f64_div x y = f64_round (x / y)"

definition math_Ceil :: "float64 \<Rightarrow> float64" where
  "math_Ceil x = of_int \<lceil>x\<rceil>"

text \<open>
  The conversion \<^verbatim>\<open>int(x)\<close> truncates towards zero. Go leaves the result open when the
  value does not fit; the model takes the amd64 one, the smallest \<^verbatim>\<open>int\<close>.
\<close>

definition int_of_float64 :: "float64 \<Rightarrow> int" where
  "int_of_float64 x =
     (let t = (if x < 0 then \<lceil>x\<rceil> else \<lfloor>x\<rfloor>)
      in if - (2 ^ 63) \<le> t \<and> t < 2 ^ 63 then t else - (2 ^ 63))"

section \<open>The server\<close>

definition NUM_WORKERS_CONVERT :: int where
  "NUM_WORKERS_CONVERT = 2"

definition NUM_WORKERS_UPLOAD :: int where
  "NUM_WORKERS_UPLOAD = 10"

definition ALPHA_NUMERIC :: string where
  "ALPHA_NUMERIC = ''abcdefghijklmnopqrstuvwxyz0123456789''"

subsection \<open>Pages per worker and the spawning loop\<close>

text \<open>
  Both coordinators compute the number of pages per worker as
  \<^verbatim>\<open>int(math.Ceil(float64(numPages) / float64(NUM_WORKERS)))\<close>.
\<close>

definition numPagesPerWorker :: "int \<Rightarrow> int \<Rightarrow> int" where
  "numPagesPerWorker numPages numWorkers =
     int_of_float64 (math_Ceil (f64_div (float64_of_int numPages) (float64_of_int numWorkers)))"

text \<open>
  Both coordinators then run the same loop,
  \<^verbatim>\<open>for firstPage := 1; firstPage <= numPages; firstPage = firstPage + numPagesPerWorker\<close>,
  which clamps \<^verbatim>\<open>lastPage\<close> to \<^verbatim>\<open>numPages\<close> and starts one worker on
  \<^verbatim>\<open>[firstPage, lastPage]\<close>. \<open>spawn_ranges\<close> is the list of the ranges handed to the
  workers, in spawning order; it is \<open>None\<close> when the loop never ends.
\<close>

partial_function (option) spawn_ranges :: "int \<Rightarrow> int \<Rightarrow> int \<Rightarrow> (int \<times> int) list option" where
  "spawn_ranges numPages perWorker firstPage =
     (if firstPage \<le> numPages then
        Option.bind (spawn_ranges numPages perWorker (wrap64 (firstPage + perWorker)))
          (\<lambda>rest. Some ((firstPage,
                          if wrap64 (firstPage + perWorker - 1) > numPages then numPages
                          else wrap64 (firstPage + perWorker - 1)) # rest))
      else Some [])"

declare spawn_ranges.simps [code]

text \<open>
  The planner of the two coordinators, for any number of workers: the ranges spawned for
  \<open>numPages\<close> pages.
\<close>

definition plan :: "int \<Rightarrow> int \<Rightarrow> (int \<times> int) list option" where
  "plan numPages workerCount = spawn_ranges numPages (numPagesPerWorker numPages workerCount) 1"

definition range_length :: "int \<times> int \<Rightarrow> int" where
  "range_length r = snd r - fst r + 1"

definition range_pages :: "int \<times> int \<Rightarrow> int set" where
  "range_pages r = {fst r .. snd r}"

subsection \<open>The world outside the program\<close>

text \<open>
  What a run does to the outside world is a list of events; what the outside world answers
  is a record of oracles, one for each library call whose result the program looks at.
  \<open>fmt_Sprintf\<close> is the \<^verbatim>\<open>fmt.Sprintf\<close> of the Go library in full; \<open>Sprintf\<close> above
  describes it on the modelled fragment.
\<close>

datatype event =
    Exec string "string list"  \<comment> \<open>\<^verbatim>\<open>exec.Command(name, args...).Run()\<close>\<close>
  | Log string error           \<comment> \<open>\<^verbatim>\<open>fmt.Printf(format, err.Error())\<close>\<close>
  | PutReader string           \<comment> \<open>\<^verbatim>\<open>bucket.PutReader(path, file, size, "image/jpeg", s3.PublicRead)\<close>\<close>

record runtime =
  fmt_Sprintf :: "string \<Rightarrow> arg list \<Rightarrow> string"
  cmd_Output :: "string \<Rightarrow> string list \<Rightarrow> error + string"
  cmd_Run :: "string \<Rightarrow> string list \<Rightarrow> error option"
  os_Open :: "string \<Rightarrow> error option"
  file_Stat :: "string \<Rightarrow> error option"
  bucket_PutReader :: "string \<Rightarrow> error option"
  aws_EnvAuth :: "error option"
  s3_Bucket :: bool
  ParseMultipartForm :: "error option"
  bucket_GetReader :: "string \<Rightarrow> error option"
  os_Create :: "string \<Rightarrow> error option"
  io_Copy :: "string \<Rightarrow> error option"
  rand_Read :: "nat \<Rightarrow> nat \<Rightarrow> nat"

definition extends_Sprintf :: "(string \<Rightarrow> arg list \<Rightarrow> string) \<Rightarrow> bool" where
  "extends_Sprintf f = (\<forall>format as out. Sprintf format as = Some out \<longrightarrow> f format as = out)"

definition Sprintf_or_empty :: "string \<Rightarrow> arg list \<Rightarrow> string" where
  "Sprintf_or_empty format as = (case Sprintf format as of Some out \<Rightarrow> out | None \<Rightarrow> [])"

subsection \<open>Counting pages\<close>

definition pagecount_args :: "runtime \<Rightarrow> string \<Rightarrow> string list" where
  "pagecount_args rt pdfPath =
     [''-q'', ''-dNODISPLAY'', ''-c'',
      fmt_Sprintf rt ''(%s) (r) file runpdfbegin pdfpagecount = quit'' [StrArg pdfPath]]"

definition getNumPages :: "runtime \<Rightarrow> string \<Rightarrow> error + int" where
  "getNumPages rt pdfPath =
     (case cmd_Output rt ''gs'' (pagecount_args rt pdfPath) of
        Inl err \<Rightarrow> Inl err
      | Inr numPagesBytes \<Rightarrow>
          (case ParseInt (strings_Trim numPagesBytes [NL]) of
             Inl err \<Rightarrow> Inl err
           | Inr numPagesInt64 \<Rightarrow> Inr numPagesInt64))"

subsection \<open>Uploading\<close>

definition uploadJPEGToS3 :: "runtime \<Rightarrow> string \<Rightarrow> string \<Rightarrow> int \<Rightarrow> error option \<times> event list" where
  "uploadJPEGToS3 rt jpegPath s3JPEGPath pageNum =
     (case os_Open rt (fmt_Sprintf rt jpegPath [IntArg pageNum]) of
        Some err \<Rightarrow> (Some err, [])
      | None \<Rightarrow>
          (case file_Stat rt (fmt_Sprintf rt jpegPath [IntArg pageNum]) of
             Some err \<Rightarrow> (Some err, [])
           | None \<Rightarrow>
               (let remoteJPEGPath = fmt_Sprintf rt s3JPEGPath [IntArg pageNum]
                in (bucket_PutReader rt remoteJPEGPath, [PutReader remoteJPEGPath]))))"

text \<open>The body of the loop of \<^verbatim>\<open>uploadJPEGRangeToS3\<close>: normal, small, large.\<close>

definition uploadPage ::
  "runtime \<Rightarrow> string \<Rightarrow> string \<Rightarrow> string \<Rightarrow> string \<Rightarrow> string \<Rightarrow> string \<Rightarrow> int
     \<Rightarrow> error option \<times> event list" where
  "uploadPage rt jpegPath smallJPEGPath largeJPEGPath s3JPEGPath s3SmallJPEGPath s3LargeJPEGPath
       pageNum =
     (case uploadJPEGToS3 rt jpegPath s3JPEGPath pageNum of
        (Some err, ev1) \<Rightarrow> (Some err, ev1)
      | (None, ev1) \<Rightarrow>
          (case uploadJPEGToS3 rt smallJPEGPath s3SmallJPEGPath pageNum of
             (Some err, ev2) \<Rightarrow> (Some err, ev1 @ ev2)
           | (None, ev2) \<Rightarrow>
               (case uploadJPEGToS3 rt largeJPEGPath s3LargeJPEGPath pageNum of
                  (err, ev3) \<Rightarrow> (err, ev1 @ ev2 @ ev3))))"

partial_function (option) uploadJPEGRangeToS3 ::
  "runtime \<Rightarrow> string \<Rightarrow> string \<Rightarrow> string \<Rightarrow> string \<Rightarrow> string \<Rightarrow> string \<Rightarrow> int \<Rightarrow> int
     \<Rightarrow> (error option \<times> event list) option" where
  "uploadJPEGRangeToS3 rt jpegPath smallJPEGPath largeJPEGPath s3JPEGPath s3SmallJPEGPath
       s3LargeJPEGPath firstPage lastPage =
     (if firstPage \<le> lastPage then
        (if fst (uploadPage rt jpegPath smallJPEGPath largeJPEGPath s3JPEGPath s3SmallJPEGPath
                   s3LargeJPEGPath firstPage) \<noteq> None
         then Some (uploadPage rt jpegPath smallJPEGPath largeJPEGPath s3JPEGPath
                      s3SmallJPEGPath s3LargeJPEGPath firstPage)
         else Option.bind
                (uploadJPEGRangeToS3 rt jpegPath smallJPEGPath largeJPEGPath s3JPEGPath
                   s3SmallJPEGPath s3LargeJPEGPath (wrap64 (firstPage + 1)) lastPage)
                (\<lambda>r. Some (fst r,
                     snd (uploadPage rt jpegPath smallJPEGPath largeJPEGPath s3JPEGPath
                            s3SmallJPEGPath s3LargeJPEGPath firstPage) @ snd r)))
      else Some (None, []))"

declare uploadJPEGRangeToS3.simps [code]

text \<open>
  The upload coordinator. The workers are started with \<^verbatim>\<open>go\<close>, so what they return is
  dropped; the result is the coordinator's own error and the events of each worker, in
  spawning order. The coordinator waits for every worker it started.
\<close>

definition uploadAllJPEGsToS3 ::
  "runtime \<Rightarrow> (string \<rightharpoonup> string list) \<Rightarrow> string \<Rightarrow> string \<Rightarrow> string \<Rightarrow> int
     \<Rightarrow> (error option \<times> event list list) option" where
  "uploadAllJPEGsToS3 rt Form jpegPath smallJPEGPath largeJPEGPath numPages =
     (case Form ''s3JPEGPath'' of
        None \<Rightarrow> Some (Some (ErrorString
                  (''Must specify a JPEG path in the 's3JPEGPath' key.'' @ [NL])), [])
      | Some s3JPEGPathSet \<Rightarrow>
     (case Form ''s3SmallJPEGPath'' of
        None \<Rightarrow> Some (Some (ErrorString
                  (''Must specify a small JPEG path in the 's3SmallJPEGPath' key.'' @ [NL])), [])
      | Some s3SmallJPEGPathSet \<Rightarrow>
     (case Form ''s3LargeJPEGPath'' of
        None \<Rightarrow> Some (Some (ErrorString
                  (''Must specify a large JPEG path in the 's3LargeJPEGPath' key.'' @ [NL])), [])
      | Some s3LargeJPEGPathSet \<Rightarrow>
     if length s3JPEGPathSet \<noteq> 1 then
       Some (Some (ErrorString
         (''Must specify exactly one JPEG path in the 's3JPEGPath' key.'' @ [NL])), [])
     else if length s3SmallJPEGPathSet \<noteq> 1 then
       Some (Some (ErrorString
         (''Must specify exactly one JPEG path in the 's3SmallJPEGPath' key.'' @ [NL])), [])
     else if length s3LargeJPEGPathSet \<noteq> 1 then
       Some (Some (ErrorString
         (''Must specify exactly one JPEG path in the 's3LargeJPEGPath' key.'' @ [NL])), [])
     else if \<not> strings_Contains (hd s3JPEGPathSet) ''%d'' then
       Some (Some (ErrorString
         (''Must specify a JPEG path with %d in the 's3JPEGPath' key.'' @ [NL])), [])
     else if \<not> strings_Contains (hd s3SmallJPEGPathSet) ''%d'' then
       Some (Some (ErrorString
         (''Must specify a JPEG path with %d in the 's3SmallJPEGPath' key.'' @ [NL])), [])
     else if \<not> strings_Contains (hd s3LargeJPEGPathSet) ''%d'' then
       Some (Some (ErrorString
         (''Must specify a JPEG path with %d in the 's3LargeJPEGPath' key.'' @ [NL])), [])
     else
       (case spawn_ranges numPages (numPagesPerWorker numPages NUM_WORKERS_UPLOAD) 1 of
          None \<Rightarrow> None
        | Some ranges \<Rightarrow>
            (case those (map (\<lambda>r. uploadJPEGRangeToS3 rt jpegPath smallJPEGPath largeJPEGPath
                                 (hd s3JPEGPathSet) (hd s3SmallJPEGPathSet)
                                 (hd s3LargeJPEGPathSet) (fst r) (snd r)) ranges) of
               None \<Rightarrow> None
             | Some workers \<Rightarrow> Some (None, map snd workers))))))"

subsection \<open>Converting\<close>

definition resizeAndSaveImage ::
  "runtime \<Rightarrow> string \<Rightarrow> string \<Rightarrow> int \<Rightarrow> int \<Rightarrow> error option \<times> event list" where
  "resizeAndSaveImage rt jpegPath resizedJPEGPath maxWidth maxHeight =
     (let dimension = fmt_Sprintf rt ''%dx%d'' [IntArg maxWidth, IntArg maxHeight];
          args = [''-resize'', dimension, jpegPath, resizedJPEGPath]
      in (cmd_Run rt ''convert'' args, [Exec ''convert'' args]))"

definition gs_args :: "runtime \<Rightarrow> string \<Rightarrow> string \<Rightarrow> int \<Rightarrow> string list" where
  "gs_args rt pdfPath largeJPEGPathForPage pageNum =
     [''-dNOPAUSE'', ''-sDEVICE=jpeg'',
      fmt_Sprintf rt ''-dFirstPage=%d'' [IntArg pageNum],
      fmt_Sprintf rt ''-dLastPage=%d'' [IntArg pageNum],
      fmt_Sprintf rt ''-sOutputFile=%s'' [StrArg largeJPEGPathForPage],
      ''-dJPEGQ=90'', ''-r200'', ''-q'', pdfPath, ''-c'', ''quit'']"

text \<open>
  The body of the loop of \<^verbatim>\<open>convertPagesToJPEGs\<close>: the events of one page, and whether
  the loop goes on to the next page (\<open>True\<close>) or the worker returns (\<open>False\<close>). The
  variable \<^verbatim>\<open>err\<close> is assigned by the Ghostscript call only: the two calls of
  \<^verbatim>\<open>resizeAndSaveImage\<close> are statements whose result is dropped, and the tests after
  them read \<^verbatim>\<open>err\<close> again.
\<close>

definition convertPage ::
  "runtime \<Rightarrow> string \<Rightarrow> string \<Rightarrow> string \<Rightarrow> string \<Rightarrow> int \<Rightarrow> bool \<times> event list" where
  "convertPage rt pdfPath jpegPath smallJPEGPath largeJPEGPath pageNum =
     (let jpegPathForPage = fmt_Sprintf rt jpegPath [IntArg pageNum];
          smallJPEGPathForPage = fmt_Sprintf rt smallJPEGPath [IntArg pageNum];
          largeJPEGPathForPage = fmt_Sprintf rt largeJPEGPath [IntArg pageNum];
          args = gs_args rt pdfPath largeJPEGPathForPage pageNum;
          err = cmd_Run rt ''gs'' args
      in case err of
           Some e \<Rightarrow> (False, [Exec ''gs'' args, Log (''gs command failed: %s'' @ [NL]) e])
         | None \<Rightarrow>
             (let ev1 = snd (resizeAndSaveImage rt largeJPEGPathForPage jpegPathForPage 800 800)
              in case err of
                   Some e \<Rightarrow> (False, Exec ''gs'' args # ev1 @ [Log (''Couldn't resize image: %s'' @ [NL]) e])
                 | None \<Rightarrow>
                     (let ev2 = snd (resizeAndSaveImage rt jpegPathForPage smallJPEGPathForPage
                                       300 300)
                      in case err of
                           Some e \<Rightarrow> (False, Exec ''gs'' args # ev1 @ ev2 @
                                               [Log (''Couldn't resize image: %s'' @ [NL]) e])
                         | None \<Rightarrow> (True, Exec ''gs'' args # ev1 @ ev2))))"

partial_function (option) convertPagesToJPEGs ::
  "runtime \<Rightarrow> string \<Rightarrow> string \<Rightarrow> string \<Rightarrow> string \<Rightarrow> int \<Rightarrow> int \<Rightarrow> event list option" where
  "convertPagesToJPEGs rt pdfPath jpegPath smallJPEGPath largeJPEGPath firstPage lastPage =
     (if firstPage \<le> lastPage then
        (if \<not> fst (convertPage rt pdfPath jpegPath smallJPEGPath largeJPEGPath firstPage)
         then Some (snd (convertPage rt pdfPath jpegPath smallJPEGPath largeJPEGPath firstPage))
         else Option.bind
                (convertPagesToJPEGs rt pdfPath jpegPath smallJPEGPath largeJPEGPath
                   (wrap64 (firstPage + 1)) lastPage)
                (\<lambda>rest. Some (snd (convertPage rt pdfPath jpegPath smallJPEGPath largeJPEGPath
                                      firstPage) @ rest)))
      else Some [])"

declare convertPagesToJPEGs.simps [code]

text \<open>
  The conversion coordinator: the page count or the error of \<^verbatim>\<open>getNumPages\<close>, and the
  events of each worker, in spawning order.
\<close>

definition convertPDFToJPEGs ::
  "runtime \<Rightarrow> string \<Rightarrow> string \<Rightarrow> string \<Rightarrow> string \<Rightarrow> ((error + int) \<times> event list list) option" where
  "convertPDFToJPEGs rt pdfPath jpegPath smallJPEGPath largeJPEGPath =
     (case getNumPages rt pdfPath of
        Inl err \<Rightarrow> Some (Inl err, [])
      | Inr numPages \<Rightarrow>
          (case spawn_ranges numPages (numPagesPerWorker numPages NUM_WORKERS_CONVERT) 1 of
             None \<Rightarrow> None
           | Some ranges \<Rightarrow>
               (case those (map (\<lambda>r. convertPagesToJPEGs rt pdfPath jpegPath smallJPEGPath
                                    largeJPEGPath (fst r) (snd r)) ranges) of
                  None \<Rightarrow> None
                | Some workers \<Rightarrow> Some (Inr numPages, workers))))"

subsection \<open>The request handler\<close>

definition generateRandomString :: "runtime \<Rightarrow> nat \<Rightarrow> nat \<Rightarrow> string" where
  "generateRandomString rt call len =
     map (\<lambda>i. ALPHA_NUMERIC ! ((rand_Read rt call i mod 256) mod length ALPHA_NUMERIC)) [0..<len]"

definition connectToS3 :: "runtime \<Rightarrow> error option" where
  "connectToS3 rt =
     (case aws_EnvAuth rt of
        Some err \<Rightarrow> Some err
      | None \<Rightarrow> if \<not> s3_Bucket rt then Some (ErrorString (''Could not connect to S3.'' @ [NL]))
                else None)"

definition fetchPDF :: "runtime \<Rightarrow> (string \<rightharpoonup> string list) \<Rightarrow> error + string" where
  "fetchPDF rt Form =
     (case ParseMultipartForm rt of
        Some err \<Rightarrow> Inl err
      | None \<Rightarrow>
     (case Form ''s3PDFPath'' of
        None \<Rightarrow> Inl (ErrorString
                  (''Must specify a PDF to convert in the 's3PDFPath' key.'' @ [NL]))
      | Some s3PDFPathSet \<Rightarrow>
     if length s3PDFPathSet \<noteq> 1 then
       Inl (ErrorString (''Must specify exactly one S3 PDF path in 's3PDFPath' key.'' @ [NL]))
     else
     (case bucket_GetReader rt (hd s3PDFPathSet) of
        Some err \<Rightarrow> Inl err
      | None \<Rightarrow>
     (let pdfPath = ''/tmp/'' @ generateRandomString rt 0 50 @ ''.pdf''
      in case os_Create rt pdfPath of
           Some err \<Rightarrow> Inl err
         | None \<Rightarrow>
             (case io_Copy rt pdfPath of
                Some err \<Rightarrow> Inl err
              | None \<Rightarrow> Inr pdfPath)))))"

datatype response =
    Written string               \<comment> \<open>the body written with status 200\<close>
  | InternalServerError error    \<comment> \<open>\<^verbatim>\<open>handleError\<close>: status 500 with the text of the error\<close>

text \<open>
  The handler \<^verbatim>\<open>convert\<close>: the response, and the events of the conversion workers
  followed by those of the upload workers.
\<close>

definition convert ::
  "runtime \<Rightarrow> string \<Rightarrow> (string \<rightharpoonup> string list) \<Rightarrow> (response \<times> event list list) option" where
  "convert rt Method Form =
     (if Method \<noteq> ''POST'' then Some (Written (''Only POST requests are supported.'' @ [NL]), [])
      else
     (case connectToS3 rt of
        Some err \<Rightarrow> Some (InternalServerError err, [])
      | None \<Rightarrow>
     (case fetchPDF rt Form of
        Inl err \<Rightarrow> Some (InternalServerError err, [])
      | Inr pdfPath \<Rightarrow>
     (let jpegPrefix = generateRandomString rt 1 50;
          jpegPath = fmt_Sprintf rt ''/tmp/%s%%d.jpg'' [StrArg jpegPrefix];
          smallJPEGPath = fmt_Sprintf rt ''/tmp/%s%%d-small.jpg'' [StrArg jpegPrefix];
          largeJPEGPath = fmt_Sprintf rt ''/tmp/%s%%d-large.jpg'' [StrArg jpegPrefix]
      in case convertPDFToJPEGs rt pdfPath jpegPath smallJPEGPath largeJPEGPath of
           None \<Rightarrow> None
         | Some (Inl err, converted) \<Rightarrow> Some (InternalServerError err, converted)
         | Some (Inr numPages, converted) \<Rightarrow>
             (case uploadAllJPEGsToS3 rt Form jpegPath smallJPEGPath largeJPEGPath numPages of
                None \<Rightarrow> None
              | Some (Some err, uploaded) \<Rightarrow> Some (InternalServerError err, converted @ uploaded)
              | Some (None, uploaded) \<Rightarrow> Some (Written (''Done'' @ [NL]), converted @ uploaded))))))"

subsection \<open>The server with a single remote template\<close>

text \<open>
  The repository holds a second copy of the server, which takes the single form field
  \<^verbatim>\<open>s3JPEGPath\<close>. Its workers derive the small and the large template, local and remote
  alike, with \<^verbatim>\<open>strings.Replace\<close>; its conversion worker runs Ghostscript at 300 dpi,
  resizes with \<^verbatim>\<open>epeg\<close> and tests the error of each command; its upload worker sends the
  small variant first. \<^verbatim>\<open>getNumPages\<close>, \<^verbatim>\<open>uploadJPEGToS3\<close>, \<^verbatim>\<open>generateRandomString\<close>,
  \<^verbatim>\<open>fetchPDF\<close> and \<^verbatim>\<open>connectToS3\<close> read as in \<^verbatim>\<open>server.go\<close>. The functions of this copy
  carry the suffix \<open>_single\<close>.
\<close>

text \<open>The body and the loop of its \<^verbatim>\<open>uploadJPEGRangeToS3\<close>: small, normal, large.\<close>

definition uploadPage_single ::
  "runtime \<Rightarrow> string \<Rightarrow> string \<Rightarrow> string \<Rightarrow> string \<Rightarrow> string \<Rightarrow> string \<Rightarrow> int
     \<Rightarrow> error option \<times> event list" where
  "uploadPage_single rt jpegPath smallJPEGPath largeJPEGPath s3JPEGPath s3SmallJPEGPath
       s3LargeJPEGPath pageNum =
     (case uploadJPEGToS3 rt smallJPEGPath s3SmallJPEGPath pageNum of
        (Some err, ev1) \<Rightarrow> (Some err, ev1)
      | (None, ev1) \<Rightarrow>
          (case uploadJPEGToS3 rt jpegPath s3JPEGPath pageNum of
             (Some err, ev2) \<Rightarrow> (Some err, ev1 @ ev2)
           | (None, ev2) \<Rightarrow>
               (case uploadJPEGToS3 rt largeJPEGPath s3LargeJPEGPath pageNum of
                  (err, ev3) \<Rightarrow> (err, ev1 @ ev2 @ ev3))))"

partial_function (option) uploadPages_single ::
  "runtime \<Rightarrow> string \<Rightarrow> string \<Rightarrow> string \<Rightarrow> string \<Rightarrow> string \<Rightarrow> string \<Rightarrow> int \<Rightarrow> int
     \<Rightarrow> (error option \<times> event list) option" where
  "uploadPages_single rt jpegPath smallJPEGPath largeJPEGPath s3JPEGPath s3SmallJPEGPath
       s3LargeJPEGPath firstPage lastPage =
     (if firstPage \<le> lastPage then
        (if fst (uploadPage_single rt jpegPath smallJPEGPath largeJPEGPath s3JPEGPath
                   s3SmallJPEGPath s3LargeJPEGPath firstPage) \<noteq> None
         then Some (uploadPage_single rt jpegPath smallJPEGPath largeJPEGPath s3JPEGPath
                      s3SmallJPEGPath s3LargeJPEGPath firstPage)
         else Option.bind
                (uploadPages_single rt jpegPath smallJPEGPath largeJPEGPath s3JPEGPath
                   s3SmallJPEGPath s3LargeJPEGPath (wrap64 (firstPage + 1)) lastPage)
                (\<lambda>r. Some (fst r,
                     snd (uploadPage_single rt jpegPath smallJPEGPath largeJPEGPath s3JPEGPath
                            s3SmallJPEGPath s3LargeJPEGPath firstPage) @ snd r)))
      else Some (None, []))"

declare uploadPages_single.simps [code]

definition uploadJPEGRangeToS3_single ::
  "runtime \<Rightarrow> string \<Rightarrow> string \<Rightarrow> int \<Rightarrow> int \<Rightarrow> (error option \<times> event list) option" where
  "uploadJPEGRangeToS3_single rt jpegPath s3JPEGPath firstPage lastPage =
     (let smallJPEGPath = strings_Replace jpegPath ''%d'' ''%d-small'' 1;
          largeJPEGPath = strings_Replace jpegPath ''%d'' ''%d-large'' 1;
          s3SmallJPEGPath = strings_Replace s3JPEGPath ''%d'' ''%d-small'' 1;
          s3LargeJPEGPath = strings_Replace s3JPEGPath ''%d'' ''%d-large'' 1
      in uploadPages_single rt jpegPath smallJPEGPath largeJPEGPath s3JPEGPath s3SmallJPEGPath
           s3LargeJPEGPath firstPage lastPage)"

definition uploadAllJPEGsToS3_single ::
  "runtime \<Rightarrow> (string \<rightharpoonup> string list) \<Rightarrow> string \<Rightarrow> int
     \<Rightarrow> (error option \<times> event list list) option" where
  "uploadAllJPEGsToS3_single rt Form jpegPath numPages =
     (case Form ''s3JPEGPath'' of
        None \<Rightarrow> Some (Some (ErrorString
                  (''Must specify a JPEG path in the 's3JPEGPath' key.'' @ [NL])), [])
      | Some s3JPEGPathSet \<Rightarrow>
     if length s3JPEGPathSet \<noteq> 1 then
       Some (Some (ErrorString
         (''Must specify exactly one JPEG path in the 's3JPEGPath' key.'' @ [NL])), [])
     else if \<not> strings_Contains (hd s3JPEGPathSet) ''%d'' then
       Some (Some (ErrorString
         (''Must specify a JPEG path with %d in the 's3JPEGPath' key.'' @ [NL])), [])
     else
       (case spawn_ranges numPages (numPagesPerWorker numPages NUM_WORKERS_UPLOAD) 1 of
          None \<Rightarrow> None
        | Some ranges \<Rightarrow>
            (case those (map (\<lambda>r. uploadJPEGRangeToS3_single rt jpegPath (hd s3JPEGPathSet)
                                 (fst r) (snd r)) ranges) of
               None \<Rightarrow> None
             | Some workers \<Rightarrow> Some (None, map snd workers))))"

definition gs_args_single :: "runtime \<Rightarrow> string \<Rightarrow> string \<Rightarrow> int \<Rightarrow> string list" where
  "gs_args_single rt pdfPath largeJPEGPathForPage pageNum =
     [''-dNOPAUSE'', ''-sDEVICE=jpeg'',
      fmt_Sprintf rt ''-dFirstPage=%d'' [IntArg pageNum],
      fmt_Sprintf rt ''-dLastPage=%d'' [IntArg pageNum],
      fmt_Sprintf rt ''-sOutputFile=%s'' [StrArg largeJPEGPathForPage],
      ''-dJPEGQ=90'', ''-r300'', ''-q'', pdfPath, ''-c'', ''quit'']"

text \<open>
  The body of the loop of its \<^verbatim>\<open>convertPagesToJPEGs\<close>: the events of one page, and
  whether the loop goes on. Each command assigns \<^verbatim>\<open>err\<close>, and both resizers read the
  large JPEG.
\<close>

definition convertPage_single ::
  "runtime \<Rightarrow> string \<Rightarrow> string \<Rightarrow> string \<Rightarrow> string \<Rightarrow> int \<Rightarrow> bool \<times> event list" where
  "convertPage_single rt pdfPath jpegPath smallJPEGPath largeJPEGPath pageNum =
     (let smallJPEGPathForPage = fmt_Sprintf rt smallJPEGPath [IntArg pageNum];
          jpegPathForPage = fmt_Sprintf rt jpegPath [IntArg pageNum];
          largeJPEGPathForPage = fmt_Sprintf rt largeJPEGPath [IntArg pageNum];
          args = gs_args_single rt pdfPath largeJPEGPathForPage pageNum;
          normal = [''-m'', ''800'', largeJPEGPathForPage, jpegPathForPage];
          small = [''-m'', ''300'', largeJPEGPathForPage, smallJPEGPathForPage]
      in case cmd_Run rt ''gs'' args of
           Some e \<Rightarrow> (False, [Exec ''gs'' args, Log (''gs command failed: %s'' @ [NL]) e])
         | None \<Rightarrow>
             (case cmd_Run rt ''epeg'' normal of
                Some e \<Rightarrow> (False, [Exec ''gs'' args, Exec ''epeg'' normal,
                                    Log (''epeg command failed: %s'' @ [NL]) e])
              | None \<Rightarrow>
                  (case cmd_Run rt ''epeg'' small of
                     Some e \<Rightarrow> (False, [Exec ''gs'' args, Exec ''epeg'' normal, Exec ''epeg'' small,
                                         Log (''epeg command failed: %s'' @ [NL]) e])
                   | None \<Rightarrow> (True, [Exec ''gs'' args, Exec ''epeg'' normal,
                                      Exec ''epeg'' small]))))"

partial_function (option) convertPages_single ::
  "runtime \<Rightarrow> string \<Rightarrow> string \<Rightarrow> string \<Rightarrow> string \<Rightarrow> int \<Rightarrow> int \<Rightarrow> event list option" where
  "convertPages_single rt pdfPath jpegPath smallJPEGPath largeJPEGPath firstPage lastPage =
     (if firstPage \<le> lastPage then
        (if \<not> fst (convertPage_single rt pdfPath jpegPath smallJPEGPath largeJPEGPath firstPage)
         then Some (snd (convertPage_single rt pdfPath jpegPath smallJPEGPath largeJPEGPath
                           firstPage))
         else Option.bind
                (convertPages_single rt pdfPath jpegPath smallJPEGPath largeJPEGPath
                   (wrap64 (firstPage + 1)) lastPage)
                (\<lambda>rest. Some (snd (convertPage_single rt pdfPath jpegPath smallJPEGPath
                                      largeJPEGPath firstPage) @ rest)))
      else Some [])"

declare convertPages_single.simps [code]

definition convertPagesToJPEGs_single ::
  "runtime \<Rightarrow> string \<Rightarrow> string \<Rightarrow> int \<Rightarrow> int \<Rightarrow> event list option" where
  "convertPagesToJPEGs_single rt pdfPath jpegPath firstPage lastPage =
     (let smallJPEGPath = strings_Replace jpegPath ''%d'' ''%d-small'' 1;
          largeJPEGPath = strings_Replace jpegPath ''%d'' ''%d-large'' 1
      in convertPages_single rt pdfPath jpegPath smallJPEGPath largeJPEGPath firstPage lastPage)"

definition convertPDFToJPEGs_single ::
  "runtime \<Rightarrow> string \<Rightarrow> string \<Rightarrow> ((error + int) \<times> event list list) option" where
  "convertPDFToJPEGs_single rt pdfPath jpegPath =
     (case getNumPages rt pdfPath of
        Inl err \<Rightarrow> Some (Inl err, [])
      | Inr numPages \<Rightarrow>
          (case spawn_ranges numPages (numPagesPerWorker numPages NUM_WORKERS_CONVERT) 1 of
             None \<Rightarrow> None
           | Some ranges \<Rightarrow>
               (case those (map (\<lambda>r. convertPagesToJPEGs_single rt pdfPath jpegPath
                                    (fst r) (snd r)) ranges) of
                  None \<Rightarrow> None
                | Some workers \<Rightarrow> Some (Inr numPages, workers))))"

definition convert_single ::
  "runtime \<Rightarrow> string \<Rightarrow> (string \<rightharpoonup> string list) \<Rightarrow> (response \<times> event list list) option" where
  "convert_single rt Method Form =
     (if Method \<noteq> ''POST'' then Some (Written (''Only POST requests are supported.'' @ [NL]), [])
      else
     (case connectToS3 rt of
        Some err \<Rightarrow> Some (InternalServerError err, [])
      | None \<Rightarrow>
     (case fetchPDF rt Form of
        Inl err \<Rightarrow> Some (InternalServerError err, [])
      | Inr pdfPath \<Rightarrow>
     (let jpegPath = fmt_Sprintf rt ''/tmp/%s%%d.jpg'' [StrArg (generateRandomString rt 1 50)]
      in case convertPDFToJPEGs_single rt pdfPath jpegPath of
           None \<Rightarrow> None
         | Some (Inl err, converted) \<Rightarrow> Some (InternalServerError err, converted)
         | Some (Inr numPages, converted) \<Rightarrow>
             (case uploadAllJPEGsToS3_single rt Form jpegPath numPages of
                None \<Rightarrow> None
              | Some (Some err, uploaded) \<Rightarrow> Some (InternalServerError err, converted @ uploaded)
              | Some (None, uploaded) \<Rightarrow> Some (Written (''Done'' @ [NL]), converted @ uploaded))))))"

subsection \<open>Notions used to state the properties\<close>

text \<open>The runs of workers that execute concurrently: every interleaving of their events.\<close>

fun interleavings :: "'a list list \<Rightarrow> 'a list set" where
  "interleavings [] = {[]}"
| "interleavings (w # ws) = (\<Union>rest \<in> interleavings ws. shuffles w rest)"

text \<open>The store writes among the events of a run.\<close>

fun store_writes :: "event list \<Rightarrow> string list" where
  "store_writes [] = []"
| "store_writes (PutReader path # evs) = path # store_writes evs"
| "store_writes (ev # evs) = store_writes evs"

text \<open>
  The derivation of a variant template as the specification words it: the literal suffix
  is inserted right after the first placeholder \<^verbatim>\<open>%d\<close> of the template.
\<close>

fun insert_suffix :: "string \<Rightarrow> string \<Rightarrow> string" where
  "insert_suffix lit [] = []"
| "insert_suffix lit [c] = [c]"
| "insert_suffix lit (c # d # template) =
     (if c = CHR ''%'' \<and> d = CHR ''d'' then c # d # lit @ template
      else c # insert_suffix lit (d # template))"

text \<open>
  The planner as the specification words it, on unbounded integers: starting at
  \<open>first\<close>, ranges of \<open>perWorker\<close> pages are emitted until the start exceeds
  \<open>total\<close>, and the end of the last range is clamped to \<open>total\<close>.
\<close>

function planner_ranges :: "int \<Rightarrow> int \<Rightarrow> int \<Rightarrow> (int \<times> int) list" where
  "planner_ranges total' perWorker first =
     (if first \<le> total' \<and> 0 < perWorker
      then (first, min (first + perWorker - 1) total') # planner_ranges total' perWorker (first + perWorker)
      else [])"
  by pat_completeness auto
termination
  by (relation "measure (\<lambda>(total', perWorker, first). nat (total' + 1 - first))") auto

declare planner_ranges.simps [simp del]

text \<open>
  Page counting as the specification words it: surrounding whitespace is trimmed before
  the output is parsed.
\<close>

definition whitespace :: string where
  "whitespace = [CHR '' '', CHR 0x09, CHR 0x0A, CHR 0x0B, CHR 0x0C, CHR 0x0D]"

definition countPages_spec :: "runtime \<Rightarrow> string \<Rightarrow> error + int" where
  "countPages_spec rt pdfPath =
     (case cmd_Output rt ''gs'' (pagecount_args rt pdfPath) of
        Inl err \<Rightarrow> Inl err
      | Inr out \<Rightarrow> ParseInt (strings_Trim out whitespace))"

text \<open>The verb of the first directive of a format string that takes an operand.\<close>

fun first_verb :: "string \<Rightarrow> char option" where
  "first_verb [] = None"
| "first_verb [c] = None"
| "first_verb (c # verb # format) =
     (if c \<noteq> CHR ''%'' then first_verb (verb # format)
      else if verb = CHR ''%'' then first_verb format
      else Some verb)"

subsection \<open>Concrete runs\<close>

text \<open>
  A world in which every call succeeds and Ghostscript reports the given output for the
  page count, and a request with the three remote templates.
\<close>

definition quiet_runtime :: "string \<Rightarrow> runtime" where
  "quiet_runtime pagecount =
     \<lparr> fmt_Sprintf = Sprintf_or_empty,
       cmd_Output = (\<lambda>name args. Inr pagecount),
       cmd_Run = (\<lambda>name args. None),
       os_Open = (\<lambda>path. None),
       file_Stat = (\<lambda>path. None),
       bucket_PutReader = (\<lambda>path. None),
       aws_EnvAuth = None,
       s3_Bucket = True,
       ParseMultipartForm = None,
       bucket_GetReader = (\<lambda>path. None),
       os_Create = (\<lambda>path. None),
       io_Copy = (\<lambda>path. None),
       rand_Read = (\<lambda>call i. 7 * i + call) \<rparr>"

definition demo_form :: "string \<rightharpoonup> string list" where
  "demo_form =
     [''s3PDFPath'' \<mapsto> [''exam.pdf''],
      ''s3JPEGPath'' \<mapsto> [''page%d.jpg''],
      ''s3SmallJPEGPath'' \<mapsto> [''thumbs/%d.jpg''],
      ''s3LargeJPEGPath'' \<mapsto> [''big/%d.jpg'']]"

text \<open>A world in which Ghostscript succeeds and every run of the resizer fails.\<close>

definition resize_failing_runtime :: runtime where
  "resize_failing_runtime =
     (quiet_runtime (''2'' @ [NL]))
       \<lparr> cmd_Run := \<lambda>name args. if name = ''convert'' then Some ExitError else None \<rparr>"

section \<open>Properties\<close>

subsection \<open>Decimal numerals\<close>

lemma of_char_digit_char: "d < 10 \<Longrightarrow> (of_char (digit_char d) :: nat) = 48 + d"
  by (simp add: digit_char_def)

lemma is_digit_digit_char: "d < 10 \<Longrightarrow> is_digit (digit_char d)"
  by (simp add: is_digit_def of_char_digit_char)

lemma digit_val_digit_char: "d < 10 \<Longrightarrow> digit_val (digit_char d) = int d"
  by (simp add: digit_val_def of_char_digit_char)

lemma digit_char_digit_val: "is_digit c \<Longrightarrow> digit_char (nat (digit_val c)) = c"
proof -
  assume d: "is_digit c"
  then have "48 + nat (digit_val c) = (of_char c :: nat)"
    unfolding is_digit_def digit_val_def by linarith
  then show ?thesis by (simp add: digit_char_def)
qed

lemma digit_val_range: "is_digit c \<Longrightarrow> 0 \<le> digit_val c \<and> digit_val c < 10"
  by (auto simp: is_digit_def digit_val_def)

lemma dec_value_append: "dec_value n (s @ t) = dec_value (dec_value n s) t"
  by (induction s arbitrary: n) simp_all

lemma dec_value_mono:
  "\<forall>c\<in>set s. is_digit c \<Longrightarrow> 0 \<le> n \<Longrightarrow> n \<le> dec_value n s"
proof (induction s arbitrary: n)
  case Nil
  then show ?case by simp
next
  case (Cons c s)
  have c: "0 \<le> digit_val c" using Cons.prems(1) digit_val_range by simp
  have "n \<le> (n * 10 + digit_val c)" using c Cons.prems(2) by simp
  moreover have "(n * 10 + digit_val c) \<le> dec_value ((n * 10 + digit_val c)) s"
    using Cons.IH [of "(n * 10 + digit_val c)"] Cons.prems c by simp
  ultimately show ?case by simp
qed

lemma ParseUint_loop_iff:
  "0 \<le> n \<Longrightarrow>
   ParseUint_loop s n = Inr m \<longleftrightarrow>
     (\<forall>c\<in>set s. is_digit c) \<and> dec_value n s = m \<and> (s \<noteq> [] \<longrightarrow> m \<le> 2 ^ 64 - 1)"
proof (induction s arbitrary: n)
  case Nil
  then show ?case by auto
next
  case (Cons c s)
  show ?case
  proof (cases "is_digit c")
    case False
    then show ?thesis by simp
  next
    case True
    then have c: "0 \<le> digit_val c" using digit_val_range by simp
    have n1: "0 \<le> (n * 10 + digit_val c)" using c Cons.prems by simp
    show ?thesis
    proof (cases "(n * 10 + digit_val c) > 2 ^ 64 - 1")
      case big: True
      have "\<forall>c\<in>set s. is_digit c \<Longrightarrow> (n * 10 + digit_val c) \<le> dec_value ((n * 10 + digit_val c)) s"
        using dec_value_mono n1 by blast
      then show ?thesis using big True by auto
    next
      case small: False
      have "ParseUint_loop (c # s) n = ParseUint_loop s ((n * 10 + digit_val c))"
        using True small by simp
      then show ?thesis using Cons.IH [OF n1] True small
        by (cases "s = []") auto
    qed
  qed
qed

lemma nat_to_dec_digits: "\<forall>c\<in>set (nat_to_dec n). is_digit c"
proof (induction n rule: nat_to_dec.induct)
  case (1 n)
  show ?case
  proof (cases "n < 10")
    case True
    then show ?thesis by (subst nat_to_dec.simps) (simp add: is_digit_digit_char)
  next
    case False
    then show ?thesis using 1
      by (subst nat_to_dec.simps) (simp add: is_digit_digit_char)
  qed
qed

lemma nat_to_dec_nonempty: "nat_to_dec n \<noteq> []"
  by (subst nat_to_dec.simps) simp

lemma dec_value_nat_to_dec: "dec_value 0 (nat_to_dec n) = int n"
proof (induction n rule: nat_to_dec.induct)
  case (1 n)
  show ?case
  proof (cases "n < 10")
    case True
    then show ?thesis by (subst nat_to_dec.simps) (simp add: digit_val_digit_char)
  next
    case False
    then have "dec_value 0 (nat_to_dec n)
        = dec_value 0 (nat_to_dec (n div 10)) * 10 + digit_val (digit_char (n mod 10))"
      by (subst nat_to_dec.simps) (simp add: dec_value_append)
    also have "\<dots> = int (n div 10) * 10 + int (n mod 10)"
      using 1 False by (simp add: digit_val_digit_char)
    also have "\<dots> = int n" by (simp add: zdiv_int zmod_int)
    finally show ?thesis .
  qed
qed

lemma dec_value_zeros: "dec_value 0 (replicate k (CHR ''0'')) = 0"
  by (induction k) (simp_all add: digit_val_def)

lemma digit_char_0: "digit_char 0 = CHR ''0''"
  by code_simp

lemma is_digit_zero: "is_digit (CHR ''0'')"
  by (simp add: is_digit_def)

lemma nat_to_dec_single: "is_digit c \<Longrightarrow> nat_to_dec (nat (digit_val c)) = [c]"
proof -
  assume dc: "is_digit c"
  then have "nat (digit_val c) < 10" using digit_val_range [of c] by linarith
  then show ?thesis using dc by (subst nat_to_dec.simps) (simp add: digit_char_digit_val)
qed

lemma digits_canonical:
  "\<forall>c\<in>set s. is_digit c \<Longrightarrow> s \<noteq> [] \<Longrightarrow>
   \<exists>k. s = replicate k (CHR ''0'') @ nat_to_dec (nat (dec_value 0 s))"
proof (induction s rule: rev_induct)
  case Nil
  then show ?case by simp
next
  case (snoc c s)
  have dc: "is_digit c" using snoc.prems by simp
  then have r: "0 \<le> digit_val c" "digit_val c < 10" using digit_val_range by auto
  show ?case
  proof (cases "s = []")
    case True
    have "nat_to_dec (nat (digit_val c)) = [c]"
      using dc by (rule nat_to_dec_single)
    then have "s @ [c] = replicate 0 (CHR ''0'') @ nat_to_dec (nat (dec_value 0 (s @ [c])))"
      using True by simp
    then show ?thesis by (rule exI)
  next
    case False
    let ?m = "dec_value 0 s"
    have ds: "\<forall>c\<in>set s. is_digit c" using snoc.prems by simp
    have m0: "0 \<le> ?m" using dec_value_mono [OF ds, of 0] by simp
    obtain k where k: "s = replicate k (CHR ''0'') @ nat_to_dec (nat ?m)"
      using snoc.IH [OF ds False] by blast
    have v: "dec_value 0 (s @ [c]) = ?m * 10 + digit_val c"
      by (simp add: dec_value_append)
    show ?thesis
    proof (cases "?m = 0")
      case True
      have "nat_to_dec (nat ?m) = [CHR ''0'']"
        using True by (subst nat_to_dec.simps) (simp add: digit_char_0)
      then have "s = replicate (Suc k) (CHR ''0'')"
        using k by (simp add: replicate_append_same)
      moreover have "nat_to_dec (nat (digit_val c)) = [c]"
        using dc by (rule nat_to_dec_single)
      ultimately have "s @ [c] = replicate (Suc k) (CHR ''0'') @ nat_to_dec (nat (dec_value 0 (s @ [c])))"
        using True v by simp
      then show ?thesis by blast
    next
      case False
      then have mpos: "0 < ?m" using m0 by simp
      let ?v = "nat (?m * 10 + digit_val c)"
      have big: "\<not> ?v < 10" using mpos r by simp
      have x0: "0 \<le> ?m * 10 + digit_val c" using mpos r by simp
      have "(?m * 10 + digit_val c) div 10 = ?m" using r by simp
      then have d10: "?v div 10 = nat ?m"
        using nat_div_distrib [OF x0, of 10] by simp
      have "(?m * 10 + digit_val c) mod 10 = digit_val c" using r by simp
      then have m10: "?v mod 10 = nat (digit_val c)"
        using nat_mod_distrib [OF x0, of 10] by simp
      have "nat_to_dec ?v = nat_to_dec (nat ?m) @ [c]"
        using big d10 m10 dc by (subst nat_to_dec.simps) (simp add: digit_char_digit_val)
      then have "s @ [c] = replicate k (CHR ''0'') @ nat_to_dec (nat (dec_value 0 (s @ [c])))"
        using k v by simp
      then show ?thesis by blast
    qed
  qed
qed


lemma ParseUint_iff:
  "ParseUint s = Inr m \<longleftrightarrow>
     s \<noteq> [] \<and> (\<forall>c\<in>set s. is_digit c) \<and> dec_value 0 s = m \<and> m \<le> 2 ^ 64 - 1"
  using ParseUint_loop_iff [of 0 s m] by (auto simp: ParseUint_def)

lemma digit_not_sign: "is_digit c \<Longrightarrow> c \<noteq> CHR ''+'' \<and> c \<noteq> CHR ''-''"
  by (auto simp: is_digit_def)

lemma dec_value_nonneg: "\<forall>c\<in>set s. is_digit c \<Longrightarrow> 0 \<le> dec_value 0 s"
  using dec_value_mono [of s 0] by simp

lemma ParseUint_cases:
  obtains (err) e where "ParseUint s = Inl e"
      "\<not> (s \<noteq> [] \<and> (\<forall>c\<in>set s. is_digit c) \<and> dec_value 0 s \<le> 2 ^ 64 - 1)"
  | (ok) "ParseUint s = Inr (dec_value 0 s)" "s \<noteq> []" "\<forall>c\<in>set s. is_digit c"
      "dec_value 0 s \<le> 2 ^ 64 - 1"
proof (cases "ParseUint s")
  case (Inl e)
  have "\<not> (s \<noteq> [] \<and> (\<forall>c\<in>set s. is_digit c) \<and> dec_value 0 s \<le> 2 ^ 64 - 1)"
  proof
    assume "s \<noteq> [] \<and> (\<forall>c\<in>set s. is_digit c) \<and> dec_value 0 s \<le> 2 ^ 64 - 1"
    then have "ParseUint s = Inr (dec_value 0 s)"
      using ParseUint_iff [of s "dec_value 0 s"] by simp
    then show False using Inl by simp
  qed
  then show ?thesis using Inl err by blast
next
  case (Inr un)
  then have "s \<noteq> [] \<and> (\<forall>c\<in>set s. is_digit c) \<and> dec_value 0 s = un \<and> un \<le> 2 ^ 64 - 1"
    using ParseUint_iff [of s un] by simp
  then show ?thesis using Inr ok by blast
qed

lemma ParseInt_plain:
  assumes "s \<noteq> []" "hd s \<noteq> CHR ''+''" "hd s \<noteq> CHR ''-''"
  shows "ParseInt s = Inr n \<longleftrightarrow>
           (\<forall>c\<in>set s. is_digit c) \<and> dec_value 0 s = n \<and> n < 2 ^ 63"
proof -
  have eq: "ParseInt s = (case ParseUint s of Inl e \<Rightarrow> Inl e
          | Inr un \<Rightarrow> if un \<ge> 2 ^ 63 then Inl ErrRange else Inr un)"
    using assms by (simp add: ParseInt_def split: sum.splits)
  show ?thesis
  proof (cases s rule: ParseUint_cases)
    case (err e)
    then show ?thesis using eq assms(1) by auto
  next
    case ok
    then show ?thesis using eq by auto
  qed
qed

lemma ParseInt_plus:
  "ParseInt (CHR ''+'' # s) = Inr n \<longleftrightarrow>
     s \<noteq> [] \<and> (\<forall>c\<in>set s. is_digit c) \<and> dec_value 0 s = n \<and> n < 2 ^ 63"
proof -
  have eq: "ParseInt (CHR ''+'' # s) = (case ParseUint s of Inl e \<Rightarrow> Inl e
          | Inr un \<Rightarrow> if un \<ge> 2 ^ 63 then Inl ErrRange else Inr un)"
    by (simp add: ParseInt_def split: sum.splits)
  show ?thesis
  proof (cases s rule: ParseUint_cases)
    case (err e)
    then show ?thesis using eq by auto
  next
    case ok
    then show ?thesis using eq by auto
  qed
qed

lemma ParseInt_minus:
  "ParseInt (CHR ''-'' # s) = Inr n \<longleftrightarrow>
     s \<noteq> [] \<and> (\<forall>c\<in>set s. is_digit c) \<and> - dec_value 0 s = n \<and> dec_value 0 s \<le> 2 ^ 63"
proof -
  have eq: "ParseInt (CHR ''-'' # s) = (case ParseUint s of Inl e \<Rightarrow> Inl e
          | Inr un \<Rightarrow> if un > 2 ^ 63 then Inl ErrRange else Inr (- un))"
    by (simp add: ParseInt_def split: sum.splits)
  show ?thesis
  proof (cases s rule: ParseUint_cases)
    case (err e)
    then show ?thesis using eq by auto
  next
    case ok
    then show ?thesis using eq by auto
  qed
qed

lemma ParseInt_itoa:
  assumes "- (2 ^ 63) \<le> n" "n < 2 ^ 63"
  shows "ParseInt (itoa n) = Inr n"
proof (cases "n < 0")
  case True
  then have "itoa n = CHR ''-'' # nat_to_dec (nat (- n))" by (simp add: itoa_def)
  then show ?thesis
    using True assms ParseInt_minus [of "nat_to_dec (nat (- n))" n]
    by (simp add: nat_to_dec_nonempty nat_to_dec_digits dec_value_nat_to_dec)
next
  case False
  let ?s = "nat_to_dec (nat n)"
  have ne: "?s \<noteq> []" by (rule nat_to_dec_nonempty)
  then have "hd ?s \<in> set ?s" by simp
  then have "is_digit (hd ?s)" using nat_to_dec_digits by blast
  then have h: "hd ?s \<noteq> CHR ''+''" "hd ?s \<noteq> CHR ''-''" using digit_not_sign by auto
  have "itoa n = ?s" using False by (simp add: itoa_def)
  then show ?thesis
    using False assms ParseInt_plain [OF ne h, of n]
    by (simp add: nat_to_dec_digits dec_value_nat_to_dec)
qed

lemma ParseUint_loop_errors:
  "ParseUint_loop s n = Inl e \<Longrightarrow> e = ErrSyntax \<or> e = ErrRange"
  by (induction s arbitrary: n) (auto split: if_splits)

lemma ParseInt_errors: "ParseInt s = Inl e \<Longrightarrow> e = ErrSyntax \<or> e = ErrRange"
proof -
  assume a: "ParseInt s = Inl e"
  have u: "\<And>t e'. ParseUint t = Inl e' \<Longrightarrow> e' = ErrSyntax \<or> e' = ErrRange"
    using ParseUint_loop_errors by (auto simp: ParseUint_def split: if_splits)
  show ?thesis using a u
    by (auto simp: ParseInt_def Let_def split: if_splits sum.splits)
qed

lemma ParseInt_canonical:
  "ParseInt s = Inr n \<longleftrightarrow>
     - (2 ^ 63) \<le> n \<and> n < 2 ^ 63 \<and>
     (\<exists>sg k. s = sg @ replicate k (CHR ''0'') @ nat_to_dec (nat \<bar>n\<bar>) \<and>
             ((sg = [] \<or> sg = ''+'') \<and> 0 \<le> n \<or> sg = ''-'' \<and> n \<le> 0))"
  (is "?L \<longleftrightarrow> ?R")
proof
  assume L: ?L
  then have ne: "s \<noteq> []" by (auto simp: ParseInt_def)
  show ?R
  proof (cases "hd s = CHR ''+''")
    case True
    then obtain t where s: "s = CHR ''+'' # t" using ne by (cases s) auto
    then have t: "t \<noteq> []" "\<forall>c\<in>set t. is_digit c" "dec_value 0 t = n" "n < 2 ^ 63"
      using L ParseInt_plus [of t n] by auto
    then have n0: "0 \<le> n" using dec_value_nonneg [of t] by simp
    obtain k where "t = replicate k (CHR ''0'') @ nat_to_dec (nat (dec_value 0 t))"
      using digits_canonical t by blast
    then have "s = ''+'' @ replicate k (CHR ''0'') @ nat_to_dec (nat \<bar>n\<bar>)"
      using s t n0 by simp
    moreover have "- (2 ^ 63) \<le> n" using n0 by simp
    ultimately show ?thesis using n0 t(4)
      by (intro conjI exI [of _ "''+''"] exI [of _ k]) simp_all
  next
    case plus: False
    show ?thesis
    proof (cases "hd s = CHR ''-''")
      case True
      then obtain t where s: "s = CHR ''-'' # t" using ne by (cases s) auto
      then have t: "t \<noteq> []" "\<forall>c\<in>set t. is_digit c" "- dec_value 0 t = n"
          "dec_value 0 t \<le> 2 ^ 63"
        using L ParseInt_minus [of t n] by auto
      then have n0: "n \<le> 0" using dec_value_nonneg [of t] by simp
      obtain k where "t = replicate k (CHR ''0'') @ nat_to_dec (nat (dec_value 0 t))"
        using digits_canonical t by blast
      moreover have "dec_value 0 t = \<bar>n\<bar>" using t n0 by simp
      ultimately have "s = ''-'' @ replicate k (CHR ''0'') @ nat_to_dec (nat \<bar>n\<bar>)"
        using s by simp
      moreover have "- (2 ^ 63) \<le> n" "n < 2 ^ 63" using n0 t by simp_all
      ultimately show ?thesis using n0
        by (intro conjI exI [of _ "''-''"] exI [of _ k]) simp_all
    next
      case False
      then have t: "\<forall>c\<in>set s. is_digit c" "dec_value 0 s = n" "n < 2 ^ 63"
        using L ParseInt_plain [OF ne plus False, of n] by auto
      then have n0: "0 \<le> n" using dec_value_nonneg [of s] by simp
      obtain k where "s = replicate k (CHR ''0'') @ nat_to_dec (nat (dec_value 0 s))"
        using digits_canonical t ne by blast
      then have "s = [] @ replicate k (CHR ''0'') @ nat_to_dec (nat \<bar>n\<bar>)"
        using t n0 by simp
      moreover have "- (2 ^ 63) \<le> n" using n0 by simp
      ultimately show ?thesis using n0 t(3)
        by (intro conjI exI [of _ "[]"] exI [of _ k]) simp_all
    qed
  qed
next
  assume R: ?R
  then obtain sg k where s: "s = sg @ replicate k (CHR ''0'') @ nat_to_dec (nat \<bar>n\<bar>)"
    and sg: "(sg = [] \<or> sg = ''+'') \<and> 0 \<le> n \<or> sg = ''-'' \<and> n \<le> 0"
    and lo: "- (2 ^ 63) \<le> n" and hi: "n < 2 ^ 63" by blast
  let ?t = "replicate k (CHR ''0'') @ nat_to_dec (nat \<bar>n\<bar>)"
  have tne: "?t \<noteq> []" using nat_to_dec_nonempty by simp
  have td: "\<forall>c\<in>set ?t. is_digit c" using nat_to_dec_digits is_digit_zero by auto
  have tv: "dec_value 0 ?t = \<bar>n\<bar>"
    by (simp add: dec_value_append dec_value_zeros dec_value_nat_to_dec)
  consider (plain) "sg = []" "0 \<le> n" | (plus) "sg = ''+''" "0 \<le> n" | (minus) "sg = ''-''" "n \<le> 0"
    using sg by blast
  then show ?L
  proof cases
    case plain
    have "hd ?t \<in> set ?t" using tne by (intro hd_in_set)
    then have "is_digit (hd ?t)" using td by blast
    then have h: "hd ?t \<noteq> CHR ''+''" "hd ?t \<noteq> CHR ''-''" using digit_not_sign by auto
    show ?thesis using plain s hi tv td ParseInt_plain [OF tne h, of n] by simp
  next
    case plus
    show ?thesis using plus s hi tv td tne ParseInt_plus [of ?t n] by simp
  next
    case minus
    show ?thesis using minus s lo tv td tne ParseInt_minus [of ?t n] by simp
  qed
qed

lemma strings_Trim_newlines:
  assumes "s \<noteq> []" "hd s \<noteq> NL" "last s \<noteq> NL"
  shows "strings_Trim (replicate a NL @ s @ replicate b NL) [NL] = s"
proof -
  obtain c t where s: "s = c # t" using assms(1) by (cases s) auto
  then have c: "c \<noteq> NL" using assms(2) by simp
  have 1: "dropWhile (\<lambda>c. c \<in> set [NL]) (replicate a NL @ s @ replicate b NL)
             = s @ replicate b NL"
    using c by (simp add: s dropWhile_append3)
  obtain u z where u: "s = u @ [z]" using assms(1) by (cases s rule: rev_cases) auto
  then have z: "z \<noteq> NL" using assms(3) by simp
  have 2: "dropWhile (\<lambda>c. c \<in> set [NL]) (rev (s @ replicate b NL)) = rev s"
    using z by (simp add: u dropWhile_append3)
  show ?thesis by (simp only: strings_Trim_def 1 2 rev_rev_ident)
qed

lemma itoa_ends:
  "itoa n \<noteq> [] \<and> hd (itoa n) \<noteq> NL \<and> last (itoa n) \<noteq> NL"
proof -
  let ?d = "nat_to_dec (nat \<bar>n\<bar>)"
  have ne: "?d \<noteq> []" by (rule nat_to_dec_nonempty)
  have nl: "\<not> is_digit NL" by (simp add: is_digit_def)
  have "hd ?d \<in> set ?d" "last ?d \<in> set ?d" using ne by simp_all
  then have "is_digit (hd ?d)" "is_digit (last ?d)" using nat_to_dec_digits by blast+
  then have e: "hd ?d \<noteq> NL" "last ?d \<noteq> NL" using nl by auto
  show ?thesis
  proof (cases "n < 0")
    case True
    then have "itoa n = CHR ''-'' # ?d" by (simp add: itoa_def)
    then show ?thesis using e ne by simp
  next
    case False
    then have "itoa n = ?d" by (simp add: itoa_def)
    then show ?thesis using e ne by simp
  qed
qed

lemma getNumPages_itoa:
  assumes "cmd_Output rt ''gs'' (pagecount_args rt pdfPath)
             = Inr (replicate a NL @ itoa n @ replicate b NL)"
    and "- (2 ^ 63) \<le> n" "n < 2 ^ 63"
  shows "getNumPages rt pdfPath = Inr n"
  using assms itoa_ends [of n] ParseInt_itoa [of n]
  by (simp add: getNumPages_def strings_Trim_newlines)

subsection \<open>Counting pages\<close>

text \<open>
  C7, as the specification states it, does not hold: \<^verbatim>\<open>getNumPages\<close> trims with the
  cutset \<^verbatim>\<open>"\n"\<close>, so any other whitespace around the number stays and makes the parse
  fail, where trimming surrounding whitespace would have returned the number. Here
  Ghostscript prints a space, the digit 7 and a newline.
\<close>

theorem getNumPages_whitespace_counterexample:
  "getNumPages (quiet_runtime ('' 7'' @ [NL])) ''exam.pdf'' = Inl ErrSyntax \<and>
   countPages_spec (quiet_runtime ('' 7'' @ [NL])) ''exam.pdf'' = Inr 7"
  by code_simp

text \<open>
  C7, amended: \<^verbatim>\<open>getNumPages\<close> captures the standard output of the page-count command,
  trims leading and trailing newline characters (no other whitespace) and parses the rest as
  a base-10 integer. If the command fails, its error is returned. If it succeeds, \<open>n\<close> is
  returned exactly when \<open>n\<close> fits 64 bits and the trimmed output is an optional sign,
  any number of zeros and the decimal digits of \<open>\<bar>n\<bar>\<close>; in every other case the result is
  a syntax or range error. An error of \<^verbatim>\<open>getNumPages\<close> is the result of the conversion
  coordinator, without any worker started, and the response of the request: there is no
  other way to count the pages.
\<close>

theorem getNumPages_trims_newlines_then_parses:
  "(cmd_Output rt ''gs'' (pagecount_args rt pdfPath) = Inl err \<longrightarrow>
      getNumPages rt pdfPath = Inl err) \<and>
   (cmd_Output rt ''gs'' (pagecount_args rt pdfPath) = Inr out \<longrightarrow>
      ((getNumPages rt pdfPath = Inr n) =
         (- (2 ^ 63) \<le> n \<and> n < 2 ^ 63 \<and>
          (\<exists>sg k. strings_Trim out [NL] = sg @ replicate k (CHR ''0'') @ nat_to_dec (nat \<bar>n\<bar>) \<and>
                  ((sg = [] \<or> sg = ''+'') \<and> 0 \<le> n \<or> sg = ''-'' \<and> n \<le> 0)))) \<and>
      ((\<exists>m. getNumPages rt pdfPath = Inr m) \<or> getNumPages rt pdfPath = Inl ErrSyntax \<or>
       getNumPages rt pdfPath = Inl ErrRange)) \<and>
   (getNumPages rt pdfPath = Inl err \<longrightarrow>
      convertPDFToJPEGs rt pdfPath jpegPath smallJPEGPath largeJPEGPath = Some (Inl err, [])) \<and>
   (connectToS3 rt = None \<and> fetchPDF rt Form = Inr pdfPath \<and> getNumPages rt pdfPath = Inl err \<longrightarrow>
      convert rt ''POST'' Form = Some (InternalServerError err, []))"
proof (intro conjI impI)
  assume "cmd_Output rt ''gs'' (pagecount_args rt pdfPath) = Inl err"
  then show "getNumPages rt pdfPath = Inl err" by (simp add: getNumPages_def)
next
  assume o: "cmd_Output rt ''gs'' (pagecount_args rt pdfPath) = Inr out"
  have g: "getNumPages rt pdfPath = ParseInt (strings_Trim out [NL])"
    using o by (simp add: getNumPages_def split: sum.splits)
  show "(getNumPages rt pdfPath = Inr n) =
         (- (2 ^ 63) \<le> n \<and> n < 2 ^ 63 \<and>
          (\<exists>sg k. strings_Trim out [NL] = sg @ replicate k (CHR ''0'') @ nat_to_dec (nat \<bar>n\<bar>) \<and>
                  ((sg = [] \<or> sg = ''+'') \<and> 0 \<le> n \<or> sg = ''-'' \<and> n \<le> 0)))"
    unfolding g by (rule ParseInt_canonical)
  show "(\<exists>m. getNumPages rt pdfPath = Inr m) \<or> getNumPages rt pdfPath = Inl ErrSyntax \<or>
       getNumPages rt pdfPath = Inl ErrRange"
    unfolding g using ParseInt_errors [of "strings_Trim out [NL]"]
    by (cases "ParseInt (strings_Trim out [NL])") auto
next
  assume "getNumPages rt pdfPath = Inl err"
  then show "convertPDFToJPEGs rt pdfPath jpegPath smallJPEGPath largeJPEGPath = Some (Inl err, [])"
    by (simp add: convertPDFToJPEGs_def)
next
  assume "connectToS3 rt = None \<and> fetchPDF rt Form = Inr pdfPath \<and> getNumPages rt pdfPath = Inl err"
  then show "convert rt ''POST'' Form = Some (InternalServerError err, [])"
    by (simp add: convert_def convertPDFToJPEGs_def Let_def)
qed

theorem getNumPages_trims_newlines_then_parses_witness:
  "getNumPages (quiet_runtime ([NL] @ ''+012'' @ [NL, NL])) ''exam.pdf'' = Inr 12 \<and>
   convert ((quiet_runtime []) \<lparr> cmd_Output := \<lambda>name args. Inl ExitError \<rparr>) ''POST'' demo_form
     = Some (InternalServerError ExitError, [])"
proof -
  let ?out = "[NL] @ ''+012'' @ [NL, NL]"
  let ?rt = "quiet_runtime ?out"
  let ?bad = "(quiet_runtime []) \<lparr> cmd_Output := \<lambda>name args. Inl ExitError \<rparr>"
  have o: "cmd_Output ?rt ''gs'' (pagecount_args ?rt ''exam.pdf'') = Inr ?out"
    by (simp add: quiet_runtime_def)
  have t: "strings_Trim ?out [NL] = ''+'' @ replicate 1 (CHR ''0'') @ nat_to_dec (nat \<bar>12\<bar>)"
    by code_simp
  have "\<exists>sg k. strings_Trim ?out [NL] = sg @ replicate k (CHR ''0'') @ nat_to_dec (nat \<bar>12::int\<bar>) \<and>
            ((sg = [] \<or> sg = ''+'') \<and> (0::int) \<le> 12 \<or> sg = ''-'' \<and> (12::int) \<le> 0)"
    using t by (intro exI [of _ "''+''"] exI [of _ 1]) simp
  then have 1: "getNumPages ?rt ''exam.pdf'' = Inr 12"
    using getNumPages_trims_newlines_then_parses [of ?rt "''exam.pdf''" _ ?out 12] o by simp
  have c: "connectToS3 ?bad = None" by (simp add: connectToS3_def quiet_runtime_def)
  obtain pdfPath where f: "fetchPDF ?bad demo_form = Inr pdfPath"
    by (simp add: fetchPDF_def quiet_runtime_def demo_form_def Let_def)
  have "cmd_Output ?bad ''gs'' (pagecount_args ?bad pdfPath) = Inl ExitError"
    by (simp add: quiet_runtime_def)
  then have g: "getNumPages ?bad pdfPath = Inl ExitError"
    using getNumPages_trims_newlines_then_parses [of ?bad pdfPath ExitError] by simp
  have 2: "convert ?bad ''POST'' demo_form = Some (InternalServerError ExitError, [])"
    using getNumPages_trims_newlines_then_parses [of ?bad pdfPath ExitError _ _ _ _ _ demo_form]
      c f g by simp
  show ?thesis using 1 2 by simp
qed

subsection \<open>Validation of the remote templates\<close>

text \<open>
  C5: whenever one of the three form fields \<^verbatim>\<open>s3JPEGPath\<close>, \<^verbatim>\<open>s3SmallJPEGPath\<close>,
  \<^verbatim>\<open>s3LargeJPEGPath\<close> is absent, or carries a number of values other than one, or carries
  a value without \<^verbatim>\<open>%d\<close>, whatever the other two fields are, the upload coordinator
  returns an error made with \<^verbatim>\<open>errors.New\<close> and has started no worker, so no store
  write is attempted.
\<close>

theorem uploadAllJPEGsToS3_rejects_malformed_templates:
  assumes "key \<in> {''s3JPEGPath'', ''s3SmallJPEGPath'', ''s3LargeJPEGPath''}"
    and "Form key = None \<or>
         (\<exists>values. Form key = Some values \<and>
            (length values \<noteq> 1 \<or> \<not> strings_Contains (hd values) ''%d''))"
  shows "\<exists>text. uploadAllJPEGsToS3 rt Form jpegPath smallJPEGPath largeJPEGPath numPages
                  = Some (Some (ErrorString text), [])"
proof -
  consider "key = ''s3JPEGPath''" | "key = ''s3SmallJPEGPath''" | "key = ''s3LargeJPEGPath''"
    using assms(1) by blast
  then show ?thesis
  proof cases
    case 1
    then show ?thesis using assms(2)
      by (auto simp: uploadAllJPEGsToS3_def split: option.splits)
  next
    case 2
    then show ?thesis using assms(2)
      by (auto simp: uploadAllJPEGsToS3_def split: option.splits)
  next
    case 3
    then show ?thesis using assms(2)
      by (auto simp: uploadAllJPEGsToS3_def split: option.splits)
  qed
qed

theorem uploadAllJPEGsToS3_rejects_malformed_templates_witness:
  "(\<exists>text. uploadAllJPEGsToS3 (quiet_runtime []) (demo_form(''s3LargeJPEGPath'' := None))
             ''a%d'' ''b%d'' ''c%d'' 6 = Some (Some (ErrorString text), [])) \<and>
   (\<exists>text. uploadAllJPEGsToS3 (quiet_runtime [])
             (demo_form(''s3SmallJPEGPath'' \<mapsto> [''x%d'', ''y%d'']))
             ''a%d'' ''b%d'' ''c%d'' 6 = Some (Some (ErrorString text), [])) \<and>
   (\<exists>text. uploadAllJPEGsToS3 (quiet_runtime []) (demo_form(''s3JPEGPath'' \<mapsto> [''page.jpg'']))
             ''a%d'' ''b%d'' ''c%d'' 6 = Some (Some (ErrorString text), []))"
proof (intro conjI)
  show "\<exists>text. uploadAllJPEGsToS3 (quiet_runtime []) (demo_form(''s3LargeJPEGPath'' := None))
             ''a%d'' ''b%d'' ''c%d'' 6 = Some (Some (ErrorString text), [])"
    by (rule uploadAllJPEGsToS3_rejects_malformed_templates [where key = "''s3LargeJPEGPath''"])
      simp_all
  show "\<exists>text. uploadAllJPEGsToS3 (quiet_runtime [])
             (demo_form(''s3SmallJPEGPath'' \<mapsto> [''x%d'', ''y%d'']))
             ''a%d'' ''b%d'' ''c%d'' 6 = Some (Some (ErrorString text), [])"
    by (rule uploadAllJPEGsToS3_rejects_malformed_templates [where key = "''s3SmallJPEGPath''"])
      simp_all
  show "\<exists>text. uploadAllJPEGsToS3 (quiet_runtime []) (demo_form(''s3JPEGPath'' \<mapsto> [''page.jpg'']))
             ''a%d'' ''b%d'' ''c%d'' 6 = Some (Some (ErrorString text), [])"
    by (rule uploadAllJPEGsToS3_rejects_malformed_templates [where key = "''s3JPEGPath''"])
      simp_all
qed

subsection \<open>Substituting the page number\<close>

lemma nat_to_dec_inj: "nat_to_dec m = nat_to_dec n \<Longrightarrow> m = n"
proof -
  assume e: "nat_to_dec m = nat_to_dec n"
  have "int m = dec_value 0 (nat_to_dec m)" by (simp only: dec_value_nat_to_dec)
  also have "\<dots> = dec_value 0 (nat_to_dec n)" by (simp only: e)
  also have "\<dots> = int n" by (simp only: dec_value_nat_to_dec)
  finally show "m = n" by simp
qed

lemma itoa_inj: "itoa p = itoa q \<Longrightarrow> p = q"
proof -
  assume e: "itoa p = itoa q"
  have nd: "\<And>n. hd (nat_to_dec n) \<noteq> CHR ''-''"
  proof -
    fix n
    have "hd (nat_to_dec n) \<in> set (nat_to_dec n)" using nat_to_dec_nonempty by simp
    then have "is_digit (hd (nat_to_dec n))" using nat_to_dec_digits by blast
    then show "hd (nat_to_dec n) \<noteq> CHR ''-''" using digit_not_sign by blast
  qed
  show ?thesis
  proof (cases "p < 0")
    case pn: True
    show ?thesis
    proof (cases "q < 0")
      case True
      then have "nat (- p) = nat (- q)" using e pn nat_to_dec_inj by (simp add: itoa_def)
      then show ?thesis using pn True by simp
    next
      case False
      then have "CHR ''-'' # nat_to_dec (nat (- p)) = nat_to_dec (nat q)"
        using e pn by (simp add: itoa_def)
      then have "hd (nat_to_dec (nat q)) = CHR ''-''" by (metis list.sel(1))
      then show ?thesis using nd by blast
    qed
  next
    case pp: False
    show ?thesis
    proof (cases "q < 0")
      case True
      then have "nat_to_dec (nat p) = CHR ''-'' # nat_to_dec (nat (- q))"
        using e pp by (simp add: itoa_def)
      then have "hd (nat_to_dec (nat p)) = CHR ''-''" by (metis list.sel(1))
      then show ?thesis using nd by blast
    next
      case False
      then have "nat p = nat q" using e pp nat_to_dec_inj by (simp add: itoa_def)
      then show ?thesis using pp False by simp
    qed
  qed
qed

lemma Sprintf_page_shape:
  "first_verb format \<noteq> Some (CHR ''T'') \<Longrightarrow> Sprintf format [IntArg p] = Some out \<Longrightarrow>
   \<exists>pre post. \<forall>q. Sprintf format [IntArg q] = Some (pre @ itoa q @ post)"
proof (induction format arbitrary: out rule: first_verb.induct)
  case 1
  have "\<forall>q. Sprintf [] [IntArg q] = Some (''%!(EXTRA int='' @ itoa q @ '')'')" by simp
  then show ?case by blast
next
  case (2 c)
  show ?case
  proof (cases "c = CHR ''%''")
    case True
    then have "\<forall>q. Sprintf [c] [IntArg q] = Some (''%!(NOVERB)%!(EXTRA int='' @ itoa q @ '')'')"
      by simp
    then show ?thesis by blast
  next
    case False
    then have "\<forall>q. Sprintf [c] [IntArg q] = Some ((c # ''%!(EXTRA int='') @ itoa q @ '')'')"
      by simp
    then show ?thesis by blast
  qed
next
  case (3 c verb format)
  show ?case
  proof (cases "c \<noteq> CHR ''%''")
    case True
    then obtain out' where o: "Sprintf (verb # format) [IntArg p] = Some out'"
      using "3.prems"(2) by auto
    have "first_verb (verb # format) \<noteq> Some (CHR ''T'')" using True "3.prems"(1) by simp
    then obtain pre post where
      "\<forall>q. Sprintf (verb # format) [IntArg q] = Some (pre @ itoa q @ post)"
      using "3.IH"(1) [OF True _ o] by blast
    then have "\<forall>q. Sprintf (c # verb # format) [IntArg q] = Some ((c # pre) @ itoa q @ post)"
      using True by simp
    then show ?thesis by blast
  next
    case pc: False
    show ?thesis
    proof (cases "verb = CHR ''%''")
      case True
      then obtain out' where o: "Sprintf format [IntArg p] = Some out'"
        using "3.prems"(2) pc by auto
      have "first_verb format \<noteq> Some (CHR ''T'')" using True pc "3.prems"(1) by simp
      then obtain pre post where "\<forall>q. Sprintf format [IntArg q] = Some (pre @ itoa q @ post)"
        using "3.IH"(2) [OF pc True _ o] by blast
      then have "\<forall>q. Sprintf (c # verb # format) [IntArg q]
                       = Some ((CHR ''%'' # pre) @ itoa q @ post)"
        using True pc by simp
      then show ?thesis by blast
    next
      case False
      then have vT: "verb \<noteq> CHR ''T''" using pc "3.prems"(1) by simp
      have letter: "is_letter verb" using "3.prems"(2) pc False by (auto split: if_splits)
      obtain post where post: "Sprintf format [] = Some post"
        using "3.prems"(2) pc False letter by (auto split: if_splits option.splits)
      have known: "verb = CHR ''v'' \<or> verb = CHR ''d'' \<or> verb = CHR ''s''"
        using "3.prems"(2) pc False letter vT by (auto split: if_splits)
      then show ?thesis
      proof (elim disjE)
        assume "verb = CHR ''s''"
        then have "\<forall>q. Sprintf (c # verb # format) [IntArg q]
                         = Some (''%!s(int='' @ itoa q @ ('')'' @ post))"
          using pc post by (simp add: is_letter_def bad_verb_def)
        then show ?thesis by blast
      next
        assume "verb = CHR ''v''"
        then have "\<forall>q. Sprintf (c # verb # format) [IntArg q] = Some ([] @ itoa q @ post)"
          using pc post by (simp add: is_letter_def)
        then show ?thesis by blast
      next
        assume "verb = CHR ''d''"
        then have "\<forall>q. Sprintf (c # verb # format) [IntArg q] = Some ([] @ itoa q @ post)"
          using pc post by (simp add: is_letter_def)
        then show ?thesis by blast
      qed
    qed
  qed
qed

text \<open>
  C8, as the specification states it, does not hold: validation accepts a template as
  soon as it contains \<^verbatim>\<open>%d\<close>, and \<^verbatim>\<open>fmt.Sprintf\<close> hands the page number to the first
  directive of the template, whatever its verb. In \<^verbatim>\<open>page%T%d.jpg\<close> that directive
  prints the type of the operand, and every page resolves to the same path.
\<close>

theorem Sprintf_type_verb_counterexample:
  "strings_Contains ''page%T%d.jpg'' ''%d'' \<and> (1::int) \<noteq> 2 \<and>
   Sprintf ''page%T%d.jpg'' [IntArg 1] = Some ''pageint%!d(MISSING).jpg'' \<and>
   Sprintf ''page%T%d.jpg'' [IntArg 2] = Some ''pageint%!d(MISSING).jpg''"
  by code_simp

text \<open>
  C8, amended: for every template made of literal text and the directives \<^verbatim>\<open>%d\<close>,
  \<^verbatim>\<open>%v\<close>, \<^verbatim>\<open>%s\<close>, \<^verbatim>\<open>%T\<close> and \<^verbatim>\<open>%%\<close> that contains \<^verbatim>\<open>%d\<close> and whose first
  directive taking an operand is not \<^verbatim>\<open>%T\<close>, two distinct page numbers resolve to two
  distinct paths.
\<close>

theorem Sprintf_page_injective:
  assumes "strings_Contains template ''%d''"
    and "first_verb template \<noteq> Some (CHR ''T'')"
    and "Sprintf template [IntArg p] = Some path1"
    and "Sprintf template [IntArg q] = Some path2"
    and "p \<noteq> q"
  shows "path1 \<noteq> path2"
proof
  assume same: "path1 = path2"
  obtain pre post where shape: "\<forall>n. Sprintf template [IntArg n] = Some (pre @ itoa n @ post)"
    using Sprintf_page_shape [OF assms(2) assms(3)] by blast
  have "pre @ itoa p @ post = pre @ itoa q @ post"
    using shape assms(3) assms(4) same by simp
  then have "itoa p = itoa q" by simp
  then show False using itoa_inj assms(5) by blast
qed

theorem Sprintf_page_injective_witness:
  "Sprintf ''split-pages/page%d.jpg'' [IntArg 1] = Some ''split-pages/page1.jpg'' \<and>
   Sprintf ''split-pages/page%d.jpg'' [IntArg 12] = Some ''split-pages/page12.jpg'' \<and>
   ''split-pages/page1.jpg'' \<noteq> ''split-pages/page12.jpg''"
proof -
  have c: "strings_Contains ''split-pages/page%d.jpg'' ''%d''" by code_simp
  have f: "first_verb ''split-pages/page%d.jpg'' \<noteq> Some (CHR ''T'')" by code_simp
  have 1: "Sprintf ''split-pages/page%d.jpg'' [IntArg 1] = Some ''split-pages/page1.jpg''"
    by code_simp
  have 2: "Sprintf ''split-pages/page%d.jpg'' [IntArg 12] = Some ''split-pages/page12.jpg''"
    by code_simp
  have "''split-pages/page1.jpg'' \<noteq> ''split-pages/page12.jpg''"
    by (rule Sprintf_page_injective [OF c f 1 2]) simp
  then show ?thesis using 1 2 by blast
qed

subsection \<open>Rounding to float64\<close>

lemma round_half_even_bounds:
  "of_int (round_half_even y) \<le> y + 1 / 2 \<and> y - 1 / 2 \<le> of_int (round_half_even y)"
proof -
  have f: "of_int \<lfloor>y\<rfloor> \<le> y" "y < of_int \<lfloor>y\<rfloor> + 1" by linarith+
  consider (lo) "y - of_int \<lfloor>y\<rfloor> < 1 / 2" | (hi) "1 / 2 \<le> y - of_int \<lfloor>y\<rfloor>" by linarith
  then show ?thesis
  proof cases
    case lo
    then have "round_half_even y = \<lfloor>y\<rfloor>" by (simp add: round_half_even_def Let_def)
    then have "(of_int (round_half_even y) :: rat) = of_int \<lfloor>y\<rfloor>" by simp
    then show ?thesis using f lo by linarith
  next
    case hi
    then have "round_half_even y = \<lfloor>y\<rfloor> \<and> y - of_int \<lfloor>y\<rfloor> = 1 / 2
        \<or> round_half_even y = \<lfloor>y\<rfloor> + 1"
      by (auto simp: round_half_even_def Let_def)
    then show ?thesis
    proof
      assume a: "round_half_even y = \<lfloor>y\<rfloor> \<and> y - of_int \<lfloor>y\<rfloor> = 1 / 2"
      then have "(of_int (round_half_even y) :: rat) = of_int \<lfloor>y\<rfloor>"
        and "y - of_int \<lfloor>y\<rfloor> = 1 / 2" by simp_all
      then show ?thesis by linarith
    next
      assume a: "round_half_even y = \<lfloor>y\<rfloor> + 1"
      then have "of_int (round_half_even y) = (of_int \<lfloor>y\<rfloor> :: rat) + 1" by simp
      then show ?thesis using f hi by linarith
    qed
  qed
qed

lemma round_half_even_of_int [simp]: "round_half_even (of_int k) = k"
  by (simp add: round_half_even_def)

lemma round_half_even_le:
  assumes "y \<le> of_int k"
  shows "round_half_even y \<le> k"
proof -
  have "\<lfloor>y\<rfloor> \<le> k" using assms by (simp add: floor_le_iff) 
  show ?thesis
  proof (cases "y = of_int k")
    case True
    then show ?thesis by simp
  next
    case False
    then have "y < of_int k" using assms by simp
    then have "\<lfloor>y\<rfloor> < k" by (simp add: floor_less_iff)
    moreover have "round_half_even y \<le> \<lfloor>y\<rfloor> + 1" by (simp add: round_half_even_def Let_def)
    ultimately show ?thesis by simp
  qed
qed

lemma round_half_even_ge:
  assumes "of_int k \<le> y"
  shows "k \<le> round_half_even y"
proof -
  have "k \<le> \<lfloor>y\<rfloor>" using assms by (simp add: le_floor_iff)
  moreover have "\<lfloor>y\<rfloor> \<le> round_half_even y" by (simp add: round_half_even_def Let_def)
  ultimately show ?thesis by simp
qed

lemma round_half_even_gt:
  assumes "of_int k + 1 / 2 < y"
  shows "k < round_half_even y"
proof -
  have "y - 1 / 2 \<le> of_int (round_half_even y)" using round_half_even_bounds by blast
  then have "(of_int k :: rat) < of_int (round_half_even y)" using assms by linarith
  then show ?thesis by simp
qed

lemma ilog2_bounds:
  assumes "0 < x"
  shows "power_int 2 (ilog2 x) \<le> x \<and> x < power_int 2 (ilog2 x + 1)"
proof -
  obtain p q where pq: "quotient_of x = (p, q)" by (cases "quotient_of x") auto
  then have q: "0 < q" using quotient_of_denom_pos by blast
  have x: "x = of_int p / of_int q" using pq by (rule quotient_of_div)
  have p: "0 < p" using assms q x by (simp add: zero_less_divide_iff)
  let ?bp = "bitlen p" and ?bq = "bitlen q"
  have bp: "2 ^ nat (?bp - 1) \<le> p" "p < 2 ^ nat ?bp" using bitlen_bounds [OF p] by auto
  have bq: "2 ^ nat (?bq - 1) \<le> q" "q < 2 ^ nat ?bq" using bitlen_bounds [OF q] by auto
  have bp1: "1 \<le> ?bp" using p by (simp add: bitlen_alt_def)
  have bq1: "1 \<le> ?bq" using q by (simp add: bitlen_alt_def)
  let ?d = "?bp - ?bq"
  have P1: "(of_int p :: rat) < power_int 2 ?bp"
  proof -
    have "(of_int p :: rat) < of_int (2 ^ nat ?bp)" using bp(2) by (simp only: of_int_less_iff)
    then show ?thesis using bp1 by (simp add: power_int_def)
  qed
  have P0: "power_int 2 (?bp - 1) \<le> (of_int p :: rat)"
  proof -
    have "(of_int (2 ^ nat (?bp - 1)) :: rat) \<le> of_int p" using bp(1) by (simp only: of_int_le_iff)
    then show ?thesis using bp1 by (simp add: power_int_def)
  qed
  have Q1: "(of_int q :: rat) < power_int 2 ?bq"
  proof -
    have "(of_int q :: rat) < of_int (2 ^ nat ?bq)" using bq(2) by (simp only: of_int_less_iff)
    then show ?thesis using bq1 by (simp add: power_int_def)
  qed
  have Q0: "power_int 2 (?bq - 1) \<le> (of_int q :: rat)"
  proof -
    have "(of_int (2 ^ nat (?bq - 1)) :: rat) \<le> of_int q" using bq(1) by (simp only: of_int_le_iff)
    then show ?thesis using bq1 by (simp add: power_int_def)
  qed
  have qpos: "(0::rat) < of_int q" using q by simp
  have up: "x < power_int 2 (?d + 1)"
  proof -
    have "power_int (2::rat) (?d + 1) * power_int 2 (?bq - 1) = power_int 2 ?bp"
      by (simp add: power_int_add [symmetric])
    moreover have "0 < power_int (2::rat) (?d + 1)" by simp
    ultimately have "of_int p < power_int (2::rat) (?d + 1) * of_int q"
      using P1 Q0 mult_left_mono [of "power_int 2 (?bq - 1)" "of_int q" "power_int (2::rat) (?d + 1)"]
      by simp
    then show ?thesis using qpos by (simp add: x pos_divide_less_eq)
  qed
  have low: "power_int 2 (?d - 1) \<le> x"
  proof -
    have "power_int (2::rat) (?d - 1) * power_int 2 ?bq = power_int 2 (?bp - 1)"
      by (simp add: power_int_add [symmetric])
    moreover have "0 < power_int (2::rat) (?d - 1)" by simp
    ultimately have "power_int (2::rat) (?d - 1) * of_int q \<le> of_int p"
      using P0 Q1 mult_left_mono [of "of_int q" "power_int 2 ?bq" "power_int (2::rat) (?d - 1)"]
      by simp
    then show ?thesis using qpos by (simp add: x pos_le_divide_eq)
  qed
  have il: "ilog2 x = (if power_int 2 ?d \<le> x then ?d else ?d - 1)"
    by (simp add: ilog2_def pq Let_def)
  show ?thesis
  proof (cases "power_int 2 ?d \<le> x")
    case True
    then show ?thesis using il up by simp
  next
    case False
    then show ?thesis using il low by simp
  qed
qed


lemma ilog2_less:
  assumes "0 < x" "x < power_int 2 b"
  shows "ilog2 x < b"
proof (rule ccontr)
  assume "\<not> ilog2 x < b"
  then have "power_int (2::rat) b \<le> power_int 2 (ilog2 x)"
    by (intro power_int_increasing) simp_all
  then show False using ilog2_bounds [OF assms(1)] assms(2) by simp
qed

lemma ilog2_ge:
  assumes "0 < x" "power_int 2 b \<le> x"
  shows "b \<le> ilog2 x"
proof (rule ccontr)
  assume "\<not> b \<le> ilog2 x"
  then have "power_int (2::rat) (ilog2 x + 1) \<le> power_int 2 b"
    by (intro power_int_increasing) simp_all
  then show False using ilog2_bounds [OF assms(1)] assms(2) by simp
qed

lemma f64_round_pos:
  "0 < x \<Longrightarrow>
   f64_round x = of_int (round_half_even (x / power_int 2 (ilog2 x - 52))) * power_int 2 (ilog2 x - 52)"
  by (simp add: f64_round_def Let_def)

lemma ulp_inverse:
  assumes "e \<le> 52"
  shows "power_int (2::rat) (e - 52) = 1 / of_int (2 ^ nat (52 - e))"
proof -
  have "power_int (2::rat) (e - 52) = power_int 2 (- (52 - e))" by simp
  also have "\<dots> = 1 / power_int 2 (52 - e)" by (rule power_int_minus_divide)
  also have "power_int (2::rat) (52 - e) = 2 ^ nat (52 - e)"
    using assms by (simp add: power_int_def)
  finally show ?thesis by simp
qed

lemma f64_round_exact:
  assumes "0 < x" "x / power_int 2 (ilog2 x - 52) = of_int m"
  shows "f64_round x = x"
proof -
  have "f64_round x = of_int m * power_int 2 (ilog2 x - 52)"
    using assms by (simp add: f64_round_pos)
  also have "\<dots> = x" using assms(2) [symmetric] by simp
  finally show ?thesis .
qed

lemma f64_round_of_int:
  assumes "0 \<le> i" "i \<le> 2 ^ 53"
  shows "f64_round (of_int i) = of_int i"
proof (cases "i = 0")
  case True
  then show ?thesis by (simp add: f64_round_def)
next
  case False
  let ?x = "of_int i :: rat"
  have x: "0 < ?x" using False assms(1) by simp
  show ?thesis
  proof (cases "i < 2 ^ 53")
    case True
    then have "?x < of_int (2 ^ 53)" by (simp only: of_int_less_iff)
    then have "?x < power_int 2 53" by simp
    then have e: "ilog2 ?x \<le> 52" using ilog2_less [OF x, of 53] by simp
    have "?x / power_int 2 (ilog2 ?x - 52) = of_int (i * 2 ^ nat (52 - ilog2 ?x))"
      by (simp add: ulp_inverse [OF e])
    then show ?thesis by (rule f64_round_exact [OF x])
  next
    case False
    then have i: "i = 2 ^ 53" using assms(2) by simp
    then have xv: "?x = power_int 2 53" by simp
    have "53 \<le> ilog2 ?x" using ilog2_ge [OF x, of 53] xv by simp
    moreover have "ilog2 ?x < 54" using ilog2_less [OF x, of 54] xv by simp
    ultimately have e: "ilog2 ?x = 53" by simp
    have u: "power_int (2::rat) (ilog2 ?x - 52) = 2" by (simp add: e)
    have "?x / power_int 2 (ilog2 ?x - 52) = ?x / 2" by (simp only: u)
    also have "\<dots> = of_int (2 ^ 52)" by (simp add: i)
    finally show ?thesis by (rule f64_round_exact [OF x])
  qed
qed

lemma f64_round_ge_binade:
  assumes "0 < x"
  shows "power_int 2 (ilog2 x) \<le> f64_round x"
proof -
  let ?e = "ilog2 x"
  let ?u = "power_int (2::rat) (?e - 52)"
  have u: "0 < ?u" by simp
  have "power_int (2::rat) ?e = of_int (2 ^ 52) * ?u"
    using power_int_add [of "2::rat" 52 "?e - 52"] by simp
  moreover have "power_int 2 ?e \<le> x" using ilog2_bounds [OF assms] by simp
  ultimately have "of_int (2 ^ 52) \<le> x / ?u" using u by (simp add: pos_le_divide_eq)
  then have "2 ^ 52 \<le> round_half_even (x / ?u)" by (rule round_half_even_ge)
  then have "(of_int (2 ^ 52) :: rat) \<le> of_int (round_half_even (x / ?u))"
    by (simp only: of_int_le_iff)
  then have "of_int (2 ^ 52) * ?u \<le> of_int (round_half_even (x / ?u)) * ?u"
    using u by (simp only: mult_le_cancel_right_pos)
  then show ?thesis
    using \<open>power_int (2::rat) ?e = of_int (2 ^ 52) * ?u\<close> f64_round_pos [OF assms] by simp
qed

text \<open>
  Rounding a positive number that lies strictly between the integers \<open>k\<close> and \<open>k + 1\<close>,
  at a distance from \<open>k\<close> of at least \<open>x / 2\<^sup>5\<^sup>3\<close>, stays above \<open>k\<close> and does not
  pass \<open>k + 1\<close>.
\<close>

lemma f64_round_between:
  assumes k0: "0 \<le> k" and lo: "of_int k < x" and hi: "x < of_int k + 1"
    and K: "k + 1 \<le> 2 ^ 53" and margin: "x \<le> (x - of_int k) * 2 ^ 53"
  shows "of_int k < f64_round x \<and> f64_round x \<le> of_int k + 1"
proof -
  have "(0::rat) \<le> of_int k" using k0 by simp
  then have x: "0 < x" using lo by linarith
  let ?e = "ilog2 x"
  have "x < of_int (2 ^ 53)"
  proof -
    have "(of_int (k + 1) :: rat) \<le> of_int (2 ^ 53)" using K by (simp only: of_int_le_iff)
    then show ?thesis using hi by simp
  qed
  then have "x < power_int 2 53" by simp
  then have e: "?e \<le> 52" using ilog2_less [OF x, of 53] by simp
  let ?M = "2 ^ nat (52 - ?e) :: int"
  have M: "0 < ?M" by simp
  have u: "power_int (2::rat) (?e - 52) = 1 / of_int ?M" by (rule ulp_inverse [OF e])
  let ?y = "x * of_int ?M"
  have r: "f64_round x = of_int (round_half_even ?y) / of_int ?M"
    using f64_round_pos [OF x] u by simp
  have Mr: "(0::rat) < of_int ?M" using M by (simp only: of_int_0_less_iff)
  \<comment> \<open>the upper bound\<close>
  have "?y \<le> (of_int k + 1) * of_int ?M" using hi Mr by simp
  then have "?y \<le> of_int ((k + 1) * ?M)" by simp
  then have "round_half_even ?y \<le> (k + 1) * ?M" by (rule round_half_even_le)
  then have "(of_int (round_half_even ?y) :: rat) \<le> of_int ((k + 1) * ?M)"
    by (simp only: of_int_le_iff)
  then have up: "f64_round x \<le> of_int k + 1"
    using Mr by (simp add: r pos_divide_le_eq)
  \<comment> \<open>the lower bound\<close>
  have pe: "power_int 2 ?e \<le> x" using ilog2_bounds [OF x] by simp
  have peM: "power_int (2::rat) ?e * of_int ?M = 2 ^ 52"
  proof -
    have "power_int (2::rat) ?e * power_int 2 (52 - ?e) = power_int 2 52"
      by (simp add: power_int_add [symmetric])
    moreover have "power_int (2::rat) (52 - ?e) = of_int ?M" using e by (simp add: power_int_def)
    ultimately show ?thesis by simp
  qed
  have half: "1 / 2 < (x - of_int k) * of_int ?M"
  proof (cases "x = power_int 2 ?e")
    case True
    have "?e < 0"
    proof (rule ccontr)
      assume "\<not> ?e < 0"
      then have xe: "x = of_int (2 ^ nat ?e)" using True by (simp add: power_int_def)
      have "(of_int k :: rat) < of_int (2 ^ nat ?e)" using lo xe by simp
      then have 1: "k < 2 ^ nat ?e" by (simp only: of_int_less_iff)
      have "(of_int (2 ^ nat ?e) :: rat) < of_int (k + 1)" using hi xe by simp
      then have 2: "2 ^ nat ?e < k + 1" by (simp only: of_int_less_iff)
      show False using 1 2 by simp
    qed
    then have "x < power_int 2 0"
      using True power_int_strict_increasing [of ?e 0 "2::rat"] by simp
    then have "x < 1" by simp
    then have "(of_int k :: rat) < of_int 1" using lo by simp
    then have "k < 1" by (simp only: of_int_less_iff)
    then have "k = 0" using k0 by simp
    then have "(x - of_int k) * of_int ?M = 2 ^ 52" using True peM by simp
    then show ?thesis by simp
  next
    case False
    then have px: "power_int 2 ?e < x" using pe by simp
    have "power_int 2 ?e * of_int ?M < x * of_int ?M"
      by (rule mult_strict_right_mono [OF px Mr])
    then have a: "2 ^ 52 < x * of_int ?M" unfolding peM .
    have b: "x * of_int ?M \<le> ((x - of_int k) * 2 ^ 53) * of_int ?M"
      by (rule mult_right_mono [OF margin]) (use Mr in simp)
    have "(2::rat) ^ 52 < ((x - of_int k) * of_int ?M) * 2 ^ 53"
      using a b by (simp only: ac_simps)
    then show ?thesis by simp
  qed
  then have "of_int (k * ?M) + 1 / 2 < ?y" by (simp add: algebra_simps)
  then have "k * ?M < round_half_even ?y" by (rule round_half_even_gt)
  then have "(of_int (k * ?M) :: rat) < of_int (round_half_even ?y)"
    by (simp only: of_int_less_iff)
  then have low: "of_int k < f64_round x"
    using Mr by (simp add: r pos_less_divide_eq)
  show ?thesis using low up by simp
qed

lemma int_of_float64_of_int:
  "- (2 ^ 63) \<le> c \<Longrightarrow> c < 2 ^ 63 \<Longrightarrow> int_of_float64 (of_int c) = c"
  by (simp add: int_of_float64_def)

lemma ceiling_of_between:
  fixes z :: rat
  assumes "of_int k < z" "z \<le> of_int k + 1"
  shows "\<lceil>z\<rceil> = k + 1"
  using assms by (simp add: ceiling_eq_iff)

lemma le_times_2_53:
  fixes z :: rat
  assumes "0 < z"
  shows "z \<le> z * 2 ^ 53"
proof -
  have "z * 1 \<le> z * 2 ^ 53" using assms by (intro mult_left_mono) simp_all
  then show ?thesis by simp
qed

lemma f64_div_ceiling:
  assumes t: "1 \<le> t" "t \<le> 2 ^ 53" and w: "0 < w" "of_int t \<le> w \<or> (\<exists>c. w = of_int c)"
  shows "\<lceil>f64_round (of_int t / w)\<rceil> = \<lceil>of_int t / w\<rceil>"
proof -
  let ?x = "of_int t / w :: rat"
  let ?K = "\<lceil>?x\<rceil>"
  have tpos: "(0::rat) < of_int t" using t(1) by simp
  have x: "0 < ?x" using tpos w(1) by simp
  have xle: "?x \<le> of_int t"
  proof -
    from w(2) have "1 \<le> w"
    proof
      assume "of_int t \<le> w"
      moreover have "(1::rat) \<le> of_int t" using t(1) by simp
      ultimately show ?thesis by simp
    next
      assume "\<exists>c. w = of_int c"
      then obtain c where c: "w = of_int c" by blast
      then have "0 < c" using w(1) by simp
      then have "1 \<le> c" by simp
      then show ?thesis unfolding c by simp
    qed
    then have "of_int t / w \<le> of_int t / 1"
      using tpos by (intro divide_left_mono) simp_all
    then show ?thesis by simp
  qed
  have K1: "1 \<le> ?K" using x by (simp add: ceiling_le_iff less_ceiling_iff) 
  have K53: "?K \<le> 2 ^ 53"
  proof -
    have "?x \<le> of_int (2 ^ 53)"
    proof -
      have "(of_int t :: rat) \<le> of_int (2 ^ 53)" using t(2) by (simp only: of_int_le_iff)
      then show ?thesis using xle by simp
    qed
    then show ?thesis by (simp only: ceiling_le_iff)
  qed
  show ?thesis
  proof (cases "?x = of_int ?K")
    case True
    have "f64_round (of_int ?K) = of_int ?K"
      using K1 K53 by (intro f64_round_of_int) simp_all
    then show ?thesis using True by simp
  next
    case False
    let ?k = "?K - 1"
    have lo: "of_int ?k < ?x" by (simp add: less_ceiling_iff flip: less_ceiling_iff) linarith
    have "?x \<le> of_int ?K" by (rule le_of_int_ceiling)
    then have "?x < of_int ?K" using False by (simp only: less_le) simp
    then have hi: "?x < of_int ?k + 1" by simp
    have k0: "0 \<le> ?k" using K1 by simp
    have margin: "?x \<le> (?x - of_int ?k) * 2 ^ 53"
    proof -
      from w(2) show ?thesis
      proof
        assume tw: "of_int t \<le> w"
        then have "?x \<le> of_int 1" using w(1) by simp
        then have "?K \<le> 1" by (simp only: ceiling_le_iff)
        then have "?k = 0" using K1 by linarith
        then have "(?x - of_int ?k) * 2 ^ 53 = ?x * 2 ^ 53" by simp
        moreover have "?x \<le> ?x * 2 ^ 53" using x by (rule le_times_2_53)
        ultimately show ?thesis by simp
      next
        assume "\<exists>c. w = of_int c"
        then obtain c where c: "w = of_int c" by blast
        then have cpos: "0 < c" using w(1) by simp
        have "of_int ?k * w < of_int t" using lo w(1) by (simp add: pos_less_divide_eq)
        then have "(of_int (?k * c) :: rat) < of_int t" unfolding c by simp
        then have "?k * c < t" by (simp only: of_int_less_iff)
        then have "1 \<le> t - ?k * c" by simp
        then have "(of_int 1 :: rat) \<le> of_int (t - ?k * c)" by (simp only: of_int_le_iff)
        then have one: "1 \<le> of_int t - of_int ?k * w" unfolding c by simp
        have "?x - of_int ?k = (of_int t - of_int ?k * w) / w" using w(1) by (simp add: field_simps)
        then have "(?x - of_int ?k) * 2 ^ 53 = ((of_int t - of_int ?k * w) * 2 ^ 53) / w" by simp
        moreover have "of_int t \<le> (of_int t - of_int ?k * w) * 2 ^ 53"
        proof -
          have "(of_int t :: rat) \<le> of_int (2 ^ 53)" using t(2) by (simp only: of_int_le_iff)
          then have "(of_int t :: rat) \<le> 1 * 2 ^ 53" by simp
          also have "\<dots> \<le> (of_int t - of_int ?k * w) * 2 ^ 53"
            using one by (intro mult_right_mono) simp_all
          finally show ?thesis .
        qed
        ultimately show ?thesis using w(1) by (simp add: divide_right_mono)
      qed
    qed
    have "?k + 1 \<le> 2 ^ 53" using K53 by simp
    then have "of_int ?k < f64_round ?x \<and> f64_round ?x \<le> of_int ?k + 1"
      using f64_round_between [OF k0 lo hi _ margin] by blast
    then have "\<lceil>f64_round ?x\<rceil> = ?k + 1" using ceiling_of_between by blast
    then show ?thesis by simp
  qed
qed

lemma numPagesPerWorker_exact:
  assumes "0 \<le> numPages" "numPages \<le> 2 ^ 53" "1 \<le> numWorkers"
  shows "numPagesPerWorker numPages numWorkers = \<lceil>of_int numPages / of_int numWorkers :: rat\<rceil>"
proof -
  let ?t = "of_int numPages :: rat" and ?c = "of_int numWorkers :: rat"
  let ?w = "float64_of_int numWorkers"
  have a: "float64_of_int numPages = ?t"
    using assms by (simp add: float64_of_int_def f64_round_of_int)
  have cpos: "0 < ?c" using assms(3) by simp
  have ceil: "\<lceil>f64_round (?t / ?w)\<rceil> = \<lceil>?t / ?c\<rceil>"
  proof (cases "numPages = 0")
    case True
    then show ?thesis by (simp add: f64_round_def)
  next
    case False
    then have t1: "1 \<le> numPages" using assms(1) by simp
    show ?thesis
    proof (cases "numWorkers \<le> 2 ^ 53")
      case True
      then have w: "?w = ?c" using assms(3) by (simp add: float64_of_int_def f64_round_of_int)
      show ?thesis unfolding w
        by (rule f64_div_ceiling [OF t1 assms(2) cpos]) blast
    next
      case False
      then have "2 ^ 53 \<le> numWorkers" by simp
      then have "(of_int (2 ^ 53) :: rat) \<le> ?c" by (simp only: of_int_le_iff)
      then have big: "power_int 2 53 \<le> ?c" by simp
      have "power_int 2 53 \<le> power_int (2::rat) (ilog2 ?c)"
        using ilog2_ge [OF cpos big] by (intro power_int_increasing) simp_all
      also have "\<dots> \<le> ?w"
        unfolding float64_of_int_def by (rule f64_round_ge_binade [OF cpos])
      finally have wbig: "power_int 2 53 \<le> ?w" .
      have "?t \<le> of_int (2 ^ 53)" using assms(2) by (simp only: of_int_le_iff)
      then have tw: "?t \<le> ?w" using wbig by simp
      have tc: "?t < ?c" using \<open>?t \<le> of_int (2 ^ 53)\<close> False
        by (smt (verit) of_int_less_iff of_int_le_iff le_less_trans not_le)
      have tpos: "0 < ?t" using t1 by simp
      then have wpos: "0 < ?w" using tw by simp
      have "\<lceil>f64_round (?t / ?w)\<rceil> = \<lceil>?t / ?w\<rceil>"
        by (rule f64_div_ceiling [OF t1 assms(2) wpos]) (use tw in blast)
      also have "\<dots> = 1"
      proof -
        have "0 < ?t / ?w" "?t / ?w \<le> 1" using tpos wpos tw by simp_all
        then show ?thesis by (simp add: ceiling_eq_iff)
      qed
      also have "1 = \<lceil>?t / ?c\<rceil>"
      proof -
        have "0 < ?t / ?c" "?t / ?c \<le> 1" using tpos cpos tc by simp_all
        then show ?thesis by (simp add: ceiling_eq_iff)
      qed
      finally show ?thesis .
    qed
  qed
  have c0: "0 \<le> \<lceil>?t / ?c\<rceil>"
  proof -
    have "0 \<le> ?t / ?c" using assms(1) cpos by simp
    then show ?thesis by (simp add: ceiling_le_iff le_ceiling_iff) 
  qed
  have c53: "\<lceil>?t / ?c\<rceil> \<le> 2 ^ 53"
  proof -
    have "?t / ?c \<le> ?t / 1" using assms(1) assms(3) by (intro divide_left_mono) simp_all
    moreover have "?t \<le> of_int (2 ^ 53)" using assms(2) by (simp only: of_int_le_iff)
    ultimately have "?t / ?c \<le> of_int (2 ^ 53)" by simp
    then show ?thesis by (simp only: ceiling_le_iff)
  qed
  have "numPagesPerWorker numPages numWorkers = int_of_float64 (of_int \<lceil>f64_round (?t / ?w)\<rceil>)"
    by (simp add: numPagesPerWorker_def math_Ceil_def f64_div_def a)
  also have "\<dots> = int_of_float64 (of_int \<lceil>?t / ?c\<rceil>)" by (simp only: ceil)
  also have "\<dots> = \<lceil>?t / ?c\<rceil>" using c0 c53 by (intro int_of_float64_of_int) simp_all
  finally show ?thesis .
qed

lemma ceiling_divide_pos:
  assumes "0 < b"
  shows "\<lceil>of_int a / of_int b :: rat\<rceil> = (a + b - 1) div b"
proof -
  let ?q = "a div b" and ?r = "a mod b"
  have r: "0 \<le> ?r" "?r < b" using assms by simp_all
  have "a + b - 1 = ?q * b + (?r + b - 1)" by (simp add: algebra_simps)
  then have "(a + b - 1) div b = (?q * b + (?r + b - 1)) div b" by (rule arg_cong)
  also have "\<dots> = ?q + (?r + b - 1) div b" using assms by (simp only: div_mult_self3)
  finally have e: "(a + b - 1) div b = ?q + (?r + b - 1) div b" .
  have c: "\<lceil>of_int a / of_int b :: rat\<rceil> = - ((- a) div b)" by (rule ceiling_divide_eq_div)
  show ?thesis
  proof (cases "?r = 0")
    case True
    then have "(?r + b - 1) div b = 0" using assms by (simp add: div_pos_pos_trivial)
    moreover have "(- a) div b = - ?q" using True assms by (simp add: zdiv_zminus1_eq_if)
    ultimately show ?thesis using c e by simp
  next
    case False
    then have "1 \<le> ?r" using r by simp
    have "(?r + b - 1) div b = ((?r - 1) + 1 * b) div b" by (simp add: algebra_simps)
    also have "\<dots> = (?r - 1) div b + 1" using assms by (simp only: div_mult_self1)
    also have "(?r - 1) div b = 0" using \<open>1 \<le> ?r\<close> r by (simp add: div_pos_pos_trivial)
    finally have "(?r + b - 1) div b = 1" by simp
    moreover have "(- a) div b = - ?q - 1" using False assms by (simp add: zdiv_zminus1_eq_if)
    ultimately show ?thesis using c e by simp
  qed
qed

lemma f64_round_positive:
  assumes "0 < x"
  shows "0 < f64_round x"
proof -
  have "(0::rat) < power_int 2 (ilog2 x)" by simp
  then show ?thesis using f64_round_ge_binade [OF assms] by linarith
qed

text \<open>Rounding does not pass a power of two.\<close>

lemma f64_round_le_power:
  assumes "0 < x" "x \<le> 2 ^ m"
  shows "f64_round x \<le> 2 ^ m"
proof -
  let ?e = "ilog2 x"
  let ?u = "power_int (2::rat) (?e - 52)"
  have u: "0 < ?u" by simp
  have "power_int 2 ?e \<le> x" using ilog2_bounds [OF assms(1)] by simp
  then have "power_int (2::rat) ?e \<le> power_int 2 (int m)" using assms(2) by simp
  then have em: "?e \<le> int m"
    by (rule power_int_le_imp_le_exp [rotated]) simp_all
  have "(2::rat) ^ m = power_int 2 (int m - ?e + 52) * ?u"
    by (simp add: power_int_add [symmetric])
  also have "power_int (2::rat) (int m - ?e + 52) = of_int (2 ^ nat (int m - ?e + 52))"
    using em by (simp add: power_int_def)
  finally have B: "(2::rat) ^ m = of_int (2 ^ nat (int m - ?e + 52)) * ?u" .
  have "x / ?u \<le> of_int (2 ^ nat (int m - ?e + 52))"
    using assms(2) u unfolding B by (simp add: pos_divide_le_eq)
  then have "round_half_even (x / ?u) \<le> 2 ^ nat (int m - ?e + 52)"
    by (rule round_half_even_le)
  then have "(of_int (round_half_even (x / ?u)) :: rat) \<le> of_int (2 ^ nat (int m - ?e + 52))"
    by (simp only: of_int_le_iff)
  then have "of_int (round_half_even (x / ?u)) * ?u \<le> of_int (2 ^ nat (int m - ?e + 52)) * ?u"
    using u by (simp only: mult_le_cancel_right_pos)
  then show ?thesis using f64_round_pos [OF assms(1)] B by simp
qed

lemma float64_of_int_ge_1:
  assumes "1 \<le> i"
  shows "1 \<le> float64_of_int i"
proof -
  have x: "(0::rat) < of_int i" using assms by simp
  have "power_int 2 0 \<le> (of_int i :: rat)" using assms by simp
  then have "0 \<le> ilog2 (of_int i)" by (rule ilog2_ge [OF x])
  then have "power_int (2::rat) 0 \<le> power_int 2 (ilog2 (of_int i))"
    by (intro power_int_increasing) simp_all
  then show ?thesis
    using f64_round_ge_binade [OF x] unfolding float64_of_int_def by simp
qed

lemma numPagesPerWorker_bounds:
  assumes "1 \<le> numPages" "numPages \<le> 2 ^ 62" "1 \<le> numWorkers"
  shows "1 \<le> numPagesPerWorker numPages numWorkers \<and>
         numPagesPerWorker numPages numWorkers \<le> 2 ^ 62"
proof -
  let ?a = "float64_of_int numPages" and ?w = "float64_of_int numWorkers"
  have a1: "1 \<le> ?a" using assms(1) by (rule float64_of_int_ge_1)
  have w1: "1 \<le> ?w" using assms(3) by (rule float64_of_int_ge_1)
  have "(of_int numPages :: rat) \<le> of_int (2 ^ 62)" using assms(2) by (simp only: of_int_le_iff)
  then have "(of_int numPages :: rat) \<le> 2 ^ 62" by simp
  moreover have "(0::rat) < of_int numPages" using assms(1) by simp
  ultimately have a62: "?a \<le> 2 ^ 62"
    unfolding float64_of_int_def by (intro f64_round_le_power) simp_all
  have q0: "0 < ?a / ?w" using a1 w1 by simp
  have "?a / ?w \<le> ?a / 1" using a1 w1 by (intro divide_left_mono) simp_all
  then have q62: "?a / ?w \<le> 2 ^ 62" using a62 by simp
  let ?r = "f64_div ?a ?w"
  have r0: "0 < ?r" unfolding f64_div_def using q0 by (rule f64_round_positive)
  have r62: "?r \<le> 2 ^ 62" unfolding f64_div_def using q0 q62 by (rule f64_round_le_power)
  have c1: "1 \<le> \<lceil>?r\<rceil>" using r0 by (simp add: less_ceiling_iff flip: less_ceiling_iff)
  have "?r \<le> of_int (2 ^ 62)" using r62 by simp
  then have c62: "\<lceil>?r\<rceil> \<le> 2 ^ 62" by (simp only: ceiling_le_iff)
  have "numPagesPerWorker numPages numWorkers = int_of_float64 (of_int \<lceil>?r\<rceil>)"
    by (simp add: numPagesPerWorker_def math_Ceil_def)
  also have "\<dots> = \<lceil>?r\<rceil>" using c1 c62 by (intro int_of_float64_of_int) simp_all
  finally show ?thesis using c1 c62 by simp
qed

subsection \<open>The spawning loop\<close>

lemma wrap64_id: "- (2 ^ 63) \<le> i \<Longrightarrow> i < 2 ^ 63 \<Longrightarrow> wrap64 i = i"
  by (simp add: wrap64_def)

lemma spawn_ranges_planner:
  assumes "0 < perWorker" "numPages + perWorker < 2 ^ 63" "- (2 ^ 63) < firstPage"
  shows "spawn_ranges numPages perWorker firstPage
           = Some (planner_ranges numPages perWorker firstPage)"
  using assms
proof (induction numPages perWorker firstPage rule: planner_ranges.induct)
  case (1 n per f)
  show ?case
  proof (cases "f \<le> n")
    case False
    then show ?thesis
      by (subst spawn_ranges.simps, subst planner_ranges.simps) simp
  next
    case True
    have w1: "wrap64 (f + per) = f + per" using True "1.prems" by (intro wrap64_id) simp_all
    have w2: "wrap64 (f + per - 1) = f + per - 1"
      using True "1.prems" by (intro wrap64_id) simp_all
    have ih: "spawn_ranges n per (f + per) = Some (planner_ranges n per (f + per))"
      using "1.IH" True "1.prems" by simp
    have m: "(if f + per - 1 > n then n else f + per - 1) = min (f + per - 1) n" by simp
    show ?thesis
      using True "1.prems"(1)
      by (subst spawn_ranges.simps, subst planner_ranges.simps) (simp add: w1 w2 ih)
  qed
qed

lemma spawn_ranges_no_pages:
  "numPages < firstPage \<Longrightarrow> spawn_ranges numPages perWorker firstPage = Some []"
  by (subst spawn_ranges.simps) simp

lemma planner_ranges_bounds:
  "0 < per \<Longrightarrow> r \<in> set (planner_ranges n per f) \<Longrightarrow> f \<le> fst r \<and> fst r \<le> snd r \<and> snd r \<le> n"
proof (induction n per f rule: planner_ranges.induct)
  case (1 n per f)
  show ?case
  proof (cases "f \<le> n")
    case False
    then show ?thesis using "1.prems" by (subst (asm) planner_ranges.simps) simp
  next
    case True
    have "r = (f, min (f + per - 1) n) \<or> r \<in> set (planner_ranges n per (f + per))"
      using "1.prems" True by (subst (asm) planner_ranges.simps) simp
    then show ?thesis
    proof
      assume "r = (f, min (f + per - 1) n)"
      then show ?thesis using True "1.prems"(1) by simp
    next
      assume "r \<in> set (planner_ranges n per (f + per))"
      then have "f + per \<le> fst r \<and> fst r \<le> snd r \<and> snd r \<le> n"
        using "1.IH" True "1.prems"(1) by simp
      then show ?thesis using "1.prems"(1) by simp
    qed
  qed
qed

lemma planner_ranges_chain:
  "0 < per \<Longrightarrow> sorted_wrt (\<lambda>r s. snd r < fst s) (planner_ranges n per f)"
proof (induction n per f rule: planner_ranges.induct)
  case (1 n per f)
  show ?case
  proof (cases "f \<le> n")
    case False
    then show ?thesis by (subst planner_ranges.simps) simp
  next
    case True
    have tail: "sorted_wrt (\<lambda>r s. snd r < fst s) (planner_ranges n per (f + per))"
      using "1.IH" True "1.prems" by simp
    have "\<forall>s\<in>set (planner_ranges n per (f + per)). min (f + per - 1) n < fst s"
    proof
      fix s assume "s \<in> set (planner_ranges n per (f + per))"
      then have "f + per \<le> fst s" using planner_ranges_bounds [OF "1.prems"] by blast
      then show "min (f + per - 1) n < fst s" by simp
    qed
    then show ?thesis using True "1.prems" tail
      by (subst planner_ranges.simps) simp
  qed
qed

lemma planner_ranges_cover:
  "0 < per \<Longrightarrow> (\<Union>r\<in>set (planner_ranges n per f). range_pages r) = {f..n}"
proof (induction n per f rule: planner_ranges.induct)
  case (1 n per f)
  show ?case
  proof (cases "f \<le> n")
    case False
    then show ?thesis by (subst planner_ranges.simps) simp
  next
    case True
    have tail: "(\<Union>r\<in>set (planner_ranges n per (f + per)). range_pages r) = {f + per..n}"
      using "1.IH" True "1.prems" by simp
    have "(\<Union>r\<in>set (planner_ranges n per f). range_pages r)
            = {f..min (f + per - 1) n} \<union> {f + per..n}"
      using True "1.prems" tail by (subst planner_ranges.simps) (simp add: range_pages_def)
    also have "\<dots> = {f..n}" using True "1.prems" by auto
    finally show ?thesis .
  qed
qed

lemma planner_ranges_length:
  "0 < per \<Longrightarrow>
   int (length (planner_ranges n per f)) = (if f \<le> n then (n - f + per) div per else 0)"
proof (induction n per f rule: planner_ranges.induct)
  case (1 n per f)
  show ?case
  proof (cases "f \<le> n")
    case False
    then show ?thesis by (subst planner_ranges.simps) simp
  next
    case True
    have ih: "int (length (planner_ranges n per (f + per)))
                = (if f + per \<le> n then (n - (f + per) + per) div per else 0)"
      using "1.IH" True "1.prems" by simp
    have step: "int (length (planner_ranges n per f))
                  = 1 + int (length (planner_ranges n per (f + per)))"
      using True "1.prems" by (subst planner_ranges.simps) simp
    show ?thesis
    proof (cases "f + per \<le> n")
      case more: True
      have "(n - f + per) div per = (n - f) div per + 1" using "1.prems" by simp
      then show ?thesis using step ih more True by simp
    next
      case False
      then have "0 \<le> n - f" "n - f < per" using True by simp_all
      then have "(n - f) div per = 0" by (simp add: div_pos_pos_trivial)
      moreover have "(n - f + per) div per = (n - f) div per + 1" using "1.prems" by simp
      ultimately show ?thesis using step ih False True by simp
    qed
  qed
qed

lemma planner_ranges_butlast:
  "0 < per \<Longrightarrow> r \<in> set (butlast (planner_ranges n per f)) \<Longrightarrow> range_length r = per"
proof (induction n per f rule: planner_ranges.induct)
  case (1 n per f)
  show ?case
  proof (cases "f \<le> n")
    case False
    then show ?thesis using "1.prems" by (subst (asm) planner_ranges.simps) simp
  next
    case True
    let ?tail = "planner_ranges n per (f + per)"
    have e: "planner_ranges n per f = (f, min (f + per - 1) n) # ?tail"
      using True "1.prems"(1) by (subst planner_ranges.simps) simp
    show ?thesis
    proof (cases "?tail = []")
      case True
      then show ?thesis using "1.prems"(2) e by simp
    next
      case False
      then have more: "f + per \<le> n" by (subst (asm) planner_ranges.simps) (simp split: if_splits)
      have "r = (f, min (f + per - 1) n) \<or> r \<in> set (butlast ?tail)"
        using "1.prems"(2) e False by simp
      then show ?thesis
      proof
        assume "r = (f, min (f + per - 1) n)"
        then show ?thesis using more by (simp add: range_length_def)
      next
        assume "r \<in> set (butlast ?tail)"
        then show ?thesis using "1.IH" True "1.prems"(1) by simp
      qed
    qed
  qed
qed

lemma planner_ranges_last:
  "0 < per \<Longrightarrow> f \<le> n \<Longrightarrow>
   range_length (last (planner_ranges n per f))
     = (if (n - f + 1) mod per = 0 then per else (n - f + 1) mod per)"
proof (induction n per f rule: planner_ranges.induct)
  case (1 n per f)
  let ?tail = "planner_ranges n per (f + per)"
  have e: "planner_ranges n per f = (f, min (f + per - 1) n) # ?tail"
    using "1.prems" by (subst planner_ranges.simps) simp
  show ?case
  proof (cases "f + per \<le> n")
    case True
    then have ne: "?tail \<noteq> []" using "1.prems"(1) by (subst planner_ranges.simps) simp
    have "range_length (last ?tail)
            = (if (n - (f + per) + 1) mod per = 0 then per else (n - (f + per) + 1) mod per)"
      using "1.IH" "1.prems" True by simp
    moreover have "(n - (f + per) + 1) mod per = (n - f + 1) mod per"
    proof -
      have "n - (f + per) + 1 = (n - f + 1) - per" by simp
      then show ?thesis by (simp only: minus_mod_self2)
    qed
    ultimately show ?thesis using e ne by simp
  next
    case False
    then have "?tail = []" by (subst planner_ranges.simps) simp
    then have l: "range_length (last (planner_ranges n per f)) = n - f + 1"
      using e False by (simp add: range_length_def)
    have b: "1 \<le> n - f + 1" "n - f + 1 \<le> per" using "1.prems"(2) False by simp_all
    show ?thesis
    proof (cases "n - f + 1 = per")
      case True
      then show ?thesis using l by simp
    next
      case False
      then have "(n - f + 1) mod per = n - f + 1" using b by (simp add: mod_pos_pos_trivial)
      then show ?thesis using l b by simp
    qed
  qed
qed

lemma perWorker_facts:
  assumes "1 \<le> numPages" "1 \<le> workerCount"
  shows "1 \<le> \<lceil>of_int numPages / of_int workerCount :: rat\<rceil>"
    and "\<lceil>of_int numPages / of_int workerCount :: rat\<rceil> \<le> numPages"
    and "numPages \<le> workerCount * \<lceil>of_int numPages / of_int workerCount :: rat\<rceil>"
proof -
  let ?c = "\<lceil>of_int numPages / of_int workerCount :: rat\<rceil>"
  have e: "?c = (numPages + workerCount - 1) div workerCount"
    using assms(2) by (intro ceiling_divide_pos) simp
  have "workerCount \<le> numPages + workerCount - 1" using assms by simp
  then have "0 < (numPages + workerCount - 1) div workerCount"
    using assms(2) by (simp add: pos_imp_zdiv_pos_iff)
  then show "1 \<le> ?c" using e by simp
  have "numPages + workerCount - 1 \<le> numPages * workerCount"
  proof -
    have "0 \<le> (numPages - 1) * (workerCount - 1)" using assms by simp
    then show ?thesis by (simp add: algebra_simps)
  qed
  then have "(numPages + workerCount - 1) div workerCount \<le> numPages * workerCount div workerCount"
    using assms(2) by (intro zdiv_mono1) simp_all
  then show "?c \<le> numPages" using e assms(2) by simp
  have "numPages + workerCount - 1
          = workerCount * ((numPages + workerCount - 1) div workerCount)
            + (numPages + workerCount - 1) mod workerCount" by simp
  moreover have "(numPages + workerCount - 1) mod workerCount < workerCount"
    using assms(2) by simp
  ultimately have "numPages + workerCount - 1
                     < workerCount * ((numPages + workerCount - 1) div workerCount) + workerCount"
    by linarith
  then show "numPages \<le> workerCount * ?c" using e by simp
qed

lemma plan_planner:
  assumes "0 \<le> numPages" "numPages \<le> 2 ^ 53" "1 \<le> workerCount"
  shows "plan numPages workerCount
           = Some (planner_ranges numPages \<lceil>of_int numPages / of_int workerCount :: rat\<rceil> 1)"
proof -
  let ?c = "\<lceil>of_int numPages / of_int workerCount :: rat\<rceil>"
  have p: "plan numPages workerCount = spawn_ranges numPages ?c 1"
    using assms by (simp add: plan_def numPagesPerWorker_exact)
  show ?thesis
  proof (cases "numPages = 0")
    case True
    then have "planner_ranges numPages ?c 1 = []" by (subst planner_ranges.simps) simp
    then show ?thesis using True p spawn_ranges_no_pages [of numPages 1 ?c] by simp
  next
    case False
    then have n: "1 \<le> numPages" using assms(1) by simp
    have c: "1 \<le> ?c" "?c \<le> numPages" using perWorker_facts [OF n assms(3)] by simp_all
    have "numPages + ?c < 2 ^ 63" using c(2) assms(2) by simp
    then show ?thesis using p c(1) by (simp add: spawn_ranges_planner)
  qed
qed

lemma planner_ranges_within_workers:
  assumes "1 \<le> numPages" "1 \<le> workerCount"
  shows "int (length (planner_ranges numPages \<lceil>of_int numPages / of_int workerCount :: rat\<rceil> 1))
           \<le> workerCount"
proof -
  define c where "c = \<lceil>of_int numPages / of_int workerCount :: rat\<rceil>"
  have c: "1 \<le> c" "numPages \<le> workerCount * c"
    using perWorker_facts [OF assms] unfolding c_def by blast+
  have "int (length (planner_ranges numPages c 1)) = (numPages - 1 + c) div c"
    using c(1) assms(1) by (simp add: planner_ranges_length)
  also have "\<dots> \<le> (workerCount * c + (c - 1)) div c"
    using c by (intro zdiv_mono1) simp_all
  also have "\<dots> = workerCount + (c - 1) div c"
    using c(1) by (subst div_mult_self3) simp_all
  also have "(c - 1) div c = 0" using c(1) by (simp add: div_pos_pos_trivial)
  finally show ?thesis unfolding c_def by simp
qed

lemma plan_planner_steps:
  assumes "0 \<le> numPages" "numPages < 2 ^ 62" "1 \<le> workerCount"
  shows "plan numPages workerCount
           = Some (planner_ranges numPages (numPagesPerWorker numPages workerCount) 1)"
proof (cases "numPages = 0")
  case True
  then have "planner_ranges numPages (numPagesPerWorker numPages workerCount) 1 = []"
    by (subst planner_ranges.simps) simp
  then show ?thesis
    using True spawn_ranges_no_pages [of numPages 1 "numPagesPerWorker numPages workerCount"]
    by (simp add: plan_def)
next
  case False
  then have n: "1 \<le> numPages" using assms(1) by simp
  have "numPages \<le> 2 ^ 62" using assms(2) by simp
  then have b: "1 \<le> numPagesPerWorker numPages workerCount"
      "numPagesPerWorker numPages workerCount \<le> 2 ^ 62"
    using numPagesPerWorker_bounds [OF n _ assms(3)] by simp_all
  have "numPages + numPagesPerWorker numPages workerCount < 2 ^ 63" using assms(2) b(2) by simp
  then show ?thesis using b(1) by (simp add: plan_def spawn_ranges_planner)
qed

subsection \<open>Pages per worker\<close>

text \<open>
  C9, as the specification states it, does not hold: \<^verbatim>\<open>float64(numPages)\<close> rounds a
  page count above \<open>2\<^sup>5\<^sup>3\<close> to 53 significant bits before the division. For
  \<open>2\<^sup>5\<^sup>3 + 1\<close> pages and the two conversion workers the program computes \<open>2\<^sup>5\<^sup>2\<close>
  pages per worker, one less than the exact ceiling.
\<close>

theorem numPagesPerWorker_rounding_counterexample:
  "numPagesPerWorker 9007199254740993 NUM_WORKERS_CONVERT = 4503599627370496 \<and>
   \<lceil>of_int 9007199254740993 / of_int NUM_WORKERS_CONVERT :: rat\<rceil> = 4503599627370497"
  by code_simp

text \<open>
  C9, amended: for every page count from 0 to \<open>2\<^sup>5\<^sup>3\<close> and every number of workers from
  1 on, in particular for the 2 conversion workers and the 10 upload workers, the number
  of pages per worker that the program computes through \<^verbatim>\<open>float64\<close> is the exact
  ceiling of the quotient.
\<close>

theorem numPagesPerWorker_ceiling:
  assumes "0 \<le> numPages" "numPages \<le> 2 ^ 53"
  shows "(1 \<le> workerCount \<longrightarrow>
            numPagesPerWorker numPages workerCount
              = \<lceil>of_int numPages / of_int workerCount :: rat\<rceil>) \<and>
         numPagesPerWorker numPages NUM_WORKERS_CONVERT = (numPages + 1) div 2 \<and>
         numPagesPerWorker numPages NUM_WORKERS_UPLOAD = (numPages + 9) div 10"
proof (intro conjI impI)
  assume "1 \<le> workerCount"
  then show "numPagesPerWorker numPages workerCount
               = \<lceil>of_int numPages / of_int workerCount :: rat\<rceil>"
    using assms by (rule numPagesPerWorker_exact [rotated 2])
next
  have "numPagesPerWorker numPages 2 = \<lceil>of_int numPages / of_int 2 :: rat\<rceil>"
    using assms by (intro numPagesPerWorker_exact) simp_all
  also have "\<dots> = (numPages + 2 - 1) div 2" by (intro ceiling_divide_pos) simp
  finally show "numPagesPerWorker numPages NUM_WORKERS_CONVERT = (numPages + 1) div 2"
    by (simp add: NUM_WORKERS_CONVERT_def)
next
  have "numPagesPerWorker numPages 10 = \<lceil>of_int numPages / of_int 10 :: rat\<rceil>"
    using assms by (intro numPagesPerWorker_exact) simp_all
  also have "\<dots> = (numPages + 10 - 1) div 10" by (intro ceiling_divide_pos) simp
  finally show "numPagesPerWorker numPages NUM_WORKERS_UPLOAD = (numPages + 9) div 10"
    by (simp add: NUM_WORKERS_UPLOAD_def)
qed

theorem numPagesPerWorker_ceiling_witness:
  "(0::int) \<le> 9007199254740992 \<and> (9007199254740992::int) \<le> 2 ^ 53 \<and>
   numPagesPerWorker 9007199254740992 3 = \<lceil>of_int 9007199254740992 / of_int 3 :: rat\<rceil> \<and>
   numPagesPerWorker 9007199254740992 NUM_WORKERS_CONVERT = 4503599627370496 \<and>
   numPagesPerWorker 9007199254740992 NUM_WORKERS_UPLOAD = 900719925474100"
  using numPagesPerWorker_ceiling [of 9007199254740992 3] by simp

subsection \<open>The page ranges of the workers\<close>

text \<open>
  C2, as the specification states it, does not hold for the loop of the program, whose
  step is the number of pages per worker computed through \<^verbatim>\<open>float64\<close>: for
  \<open>2\<^sup>5\<^sup>3 + 1\<close> pages the conversion coordinator steps by \<open>2\<^sup>5\<^sup>2\<close> and starts three
  workers, one more than its worker count.
\<close>

theorem plan_worker_count_counterexample:
  "plan 9007199254740993 NUM_WORKERS_CONVERT
     = Some [(1, 4503599627370496), (4503599627370497, 9007199254740992),
             (9007199254740993, 9007199254740993)] \<and>
   \<not> int (length [(1::int, 4503599627370496::int), (4503599627370497, 9007199254740992),
             (9007199254740993, 9007199254740993)]) \<le> NUM_WORKERS_CONVERT"
  by code_simp

text \<open>
  C2, amended: for every page count from 0 below \<open>2\<^sup>6\<^sup>2\<close> and every worker count from
  1 on, the spawning loop ends, every range it hands out is non-empty, the ranges are
  sorted by start and pairwise disjoint, their union is exactly the pages \<open>1, \<dots>, total\<close>,
  and there is none when there is no page. Up to \<open>2\<^sup>5\<^sup>3\<close> pages the ranges are those of
  the planner of the specification with \<open>perWorker = \<lceil>total / workerCount\<rceil>\<close>, and there
  are at most \<open>workerCount\<close> of them.
\<close>

theorem plan_partitions_pages:
  assumes "0 \<le> numPages" "numPages < 2 ^ 62" "1 \<le> workerCount"
  shows "\<exists>ranges. plan numPages workerCount = Some ranges \<and>
           (\<forall>r\<in>set ranges. 1 \<le> fst r \<and> fst r \<le> snd r \<and> snd r \<le> numPages) \<and>
           sorted_wrt (\<lambda>r s. fst r < fst s) ranges \<and>
           sorted_wrt (\<lambda>r s. range_pages r \<inter> range_pages s = {}) ranges \<and>
           (\<Union>r\<in>set ranges. range_pages r) = {1..numPages} \<and>
           (numPages = 0 \<longrightarrow> ranges = []) \<and>
           (numPages \<le> 2 ^ 53 \<longrightarrow>
              ranges = planner_ranges numPages \<lceil>of_int numPages / of_int workerCount :: rat\<rceil> 1 \<and>
              int (length ranges) \<le> workerCount)"
proof (cases "numPages = 0")
  case True
  have "\<And>per. planner_ranges numPages per 1 = []"
    using True by (subst planner_ranges.simps) simp
  then show ?thesis using plan_planner_steps [OF assms] True assms(3) by simp
next
  case False
  then have n: "1 \<le> numPages" using assms(1) by simp
  define per where "per = numPagesPerWorker numPages workerCount"
  define ranges where "ranges = planner_ranges numPages per 1"
  have "numPages \<le> 2 ^ 62" using assms(2) by simp
  then have c: "0 < per"
    using numPagesPerWorker_bounds [OF n _ assms(3)] unfolding per_def by simp
  have p: "plan numPages workerCount = Some ranges"
    unfolding ranges_def per_def by (rule plan_planner_steps [OF assms])
  have b: "\<forall>r\<in>set ranges. 1 \<le> fst r \<and> fst r \<le> snd r \<and> snd r \<le> numPages"
    unfolding ranges_def using planner_ranges_bounds [OF c] by blast
  have chain: "sorted_wrt (\<lambda>r s. snd r < fst s) ranges"
    unfolding ranges_def by (rule planner_ranges_chain [OF c])
  have s1: "sorted_wrt (\<lambda>r s. fst r < fst s) ranges"
    by (rule sorted_wrt_mono_rel [OF _ chain]) (use b in auto)
  have s2: "sorted_wrt (\<lambda>r s. range_pages r \<inter> range_pages s = {}) ranges"
    by (rule sorted_wrt_mono_rel [OF _ chain]) (auto simp: range_pages_def)
  have cover: "(\<Union>r\<in>set ranges. range_pages r) = {1..numPages}"
    unfolding ranges_def by (rule planner_ranges_cover [OF c])
  have exact: "numPages \<le> 2 ^ 53 \<longrightarrow>
      ranges = planner_ranges numPages \<lceil>of_int numPages / of_int workerCount :: rat\<rceil> 1 \<and>
      int (length ranges) \<le> workerCount"
  proof
    assume small: "numPages \<le> 2 ^ 53"
    have e: "per = \<lceil>of_int numPages / of_int workerCount :: rat\<rceil>"
      unfolding per_def using assms(1) small assms(3) by (rule numPagesPerWorker_exact)
    have "int (length ranges) \<le> workerCount"
      unfolding ranges_def e by (rule planner_ranges_within_workers [OF n assms(3)])
    then show "ranges = planner_ranges numPages \<lceil>of_int numPages / of_int workerCount :: rat\<rceil> 1 \<and>
      int (length ranges) \<le> workerCount"
      unfolding ranges_def e by simp
  qed
  show ?thesis using p b s1 s2 cover exact False by blast
qed

theorem plan_partitions_pages_witness:
  "(0::int) \<le> 6 \<and> (6::int) < 2 ^ 62 \<and> (1::int) \<le> 10 \<and>
   plan 6 10 = Some [(1, 1), (2, 2), (3, 3), (4, 4), (5, 5), (6, 6)] \<and>
   sorted_wrt (\<lambda>r s. fst r < fst s) [(1::int, 1::int), (2, 2), (3, 3), (4, 4), (5, 5), (6, 6)] \<and>
   sorted_wrt (\<lambda>r s. range_pages r \<inter> range_pages s = {})
     [(1, 1), (2, 2), (3, 3), (4, 4), (5, 5), (6, 6)] \<and>
   (\<Union>r\<in>set [(1, 1), (2, 2), (3, 3), (4, 4), (5, 5), (6, 6)]. range_pages r) = {1..6} \<and>
   int (length [(1::int, 1::int), (2, 2), (3, 3), (4, 4), (5, 5), (6, 6)]) \<le> 10"
proof -
  let ?L = "[(1::int, 1::int), (2, 2), (3, 3), (4, 4), (5, 5), (6, 6)]"
  have p: "plan 6 10 = Some ?L" by code_simp
  obtain ranges where r: "plan 6 10 = Some ranges"
      "sorted_wrt (\<lambda>r s. fst r < fst s) ranges"
      "sorted_wrt (\<lambda>r s. range_pages r \<inter> range_pages s = {}) ranges"
      "(\<Union>r\<in>set ranges. range_pages r) = {1..6}"
      "int (length ranges) \<le> 10"
    using plan_partitions_pages [of 6 10] by auto
  have e: "ranges = ?L" using r(1) p by simp
  have "(0::int) \<le> 6 \<and> (6::int) < 2 ^ 62 \<and> (1::int) \<le> 10" by simp
  then show ?thesis using p r(2-5) unfolding e by blast
qed

text \<open>
  C3, as the specification states it, does not hold for the loop of the program: for
  \<open>2\<^sup>5\<^sup>3 + 1\<close> pages and two workers the ceiling of the quotient is \<open>2\<^sup>5\<^sup>2 + 1\<close>, but the
  first two ranges have \<open>2\<^sup>5\<^sup>2\<close> pages and the last one has a single page, where the
  remainder of the division by the ceiling is \<open>2\<^sup>5\<^sup>2\<close>.
\<close>

theorem plan_range_length_counterexample:
  "map_option (map range_length) (plan 9007199254740993 2)
     = Some [4503599627370496, 4503599627370496, 1] \<and>
   \<lceil>of_int 9007199254740993 / of_int 2 :: rat\<rceil> = 4503599627370497 \<and>
   (9007199254740993::int) mod 4503599627370497 = 4503599627370496"
  by code_simp

text \<open>
  C3, amended: for every page count from 0 to \<open>2\<^sup>5\<^sup>3\<close> and every worker count from 1 on,
  every range handed out by the spawning loop except the last has
  \<open>\<lceil>total / workerCount\<rceil>\<close> pages, and the last range has \<open>total mod \<lceil>total / workerCount\<rceil>\<close>
  pages when that remainder is not zero and \<open>\<lceil>total / workerCount\<rceil>\<close> pages when it is.
\<close>

theorem plan_range_lengths:
  assumes "0 \<le> numPages" "numPages \<le> 2 ^ 53" "1 \<le> workerCount"
  shows "\<exists>ranges. plan numPages workerCount = Some ranges \<and>
           (\<forall>r\<in>set (butlast ranges).
              range_length r = \<lceil>of_int numPages / of_int workerCount :: rat\<rceil>) \<and>
           (ranges \<noteq> [] \<longrightarrow>
              range_length (last ranges)
                = (if numPages mod \<lceil>of_int numPages / of_int workerCount :: rat\<rceil> = 0
                   then \<lceil>of_int numPages / of_int workerCount :: rat\<rceil>
                   else numPages mod \<lceil>of_int numPages / of_int workerCount :: rat\<rceil>))"
proof (cases "numPages = 0")
  case True
  let ?c = "\<lceil>of_int numPages / of_int workerCount :: rat\<rceil>"
  have "planner_ranges numPages ?c 1 = []" using True by (subst planner_ranges.simps) simp
  then show ?thesis using plan_planner [OF assms] by simp
next
  case False
  then have n: "1 \<le> numPages" using assms(1) by simp
  let ?c = "\<lceil>of_int numPages / of_int workerCount :: rat\<rceil>"
  let ?rs = "planner_ranges numPages ?c 1"
  have c: "0 < ?c" using perWorker_facts(1) [OF n assms(3)] by simp
  have 1: "\<forall>r\<in>set (butlast ?rs). range_length r = ?c"
    using planner_ranges_butlast [OF c] by blast
  have 2: "range_length (last ?rs) = (if numPages mod ?c = 0 then ?c else numPages mod ?c)"
    using planner_ranges_last [OF c n] by simp
  show ?thesis using plan_planner [OF assms] 1 2 by simp
qed

theorem plan_range_lengths_witness:
  "(0::int) \<le> 7 \<and> (7::int) \<le> 2 ^ 53 \<and> (1::int) \<le> 2 \<and>
   plan 7 2 = Some [(1, 4), (5, 7)] \<and>
   \<lceil>of_int 7 / of_int 2 :: rat\<rceil> = 4 \<and> range_length (1, 4) = 4 \<and>
   range_length (5, 7) = 7 mod 4"
proof -
  have p: "plan 7 2 = Some [(1, 4), (5, 7)]" by code_simp
  have c: "\<lceil>of_int 7 / of_int 2 :: rat\<rceil> = 4" by code_simp
  obtain ranges where r: "plan 7 2 = Some ranges"
      "\<forall>r\<in>set (butlast ranges). range_length r = \<lceil>of_int 7 / of_int 2 :: rat\<rceil>"
      "ranges \<noteq> [] \<longrightarrow> range_length (last ranges)
          = (if 7 mod \<lceil>of_int 7 / of_int 2 :: rat\<rceil> = 0 then \<lceil>of_int 7 / of_int 2 :: rat\<rceil>
             else 7 mod \<lceil>of_int 7 / of_int 2 :: rat\<rceil>)"
    using plan_range_lengths [of 7 2] by auto
  have "ranges = [(1, 4), (5, 7)]" using r(1) p by simp
  then show ?thesis using r(2) r(3) p c by simp
qed

subsection \<open>Upload workers\<close>

lemma planner_ranges_concat:
  "0 < per \<Longrightarrow> concat (map (\<lambda>r. [fst r..snd r]) (planner_ranges n per f)) = [f..n]"
proof (induction n per f rule: planner_ranges.induct)
  case (1 n per f)
  show ?case
  proof (cases "f \<le> n")
    case False
    then show ?thesis by (subst planner_ranges.simps) simp
  next
    case True
    have tail: "concat (map (\<lambda>r. [fst r..snd r]) (planner_ranges n per (f + per))) = [f + per..n]"
      using "1.IH" True "1.prems" by simp
    have e: "concat (map (\<lambda>r. [fst r..snd r]) (planner_ranges n per f))
               = [f..min (f + per - 1) n] @ [f + per..n]"
      using True "1.prems" tail by (subst planner_ranges.simps) simp
    show ?thesis
    proof (cases "f + per \<le> n")
      case True
      have "[f..n] = [f..f + per - 1] @ [f + per..n]"
        using True "1.prems" upto_split1 [of f "f + per" n] by simp
      then show ?thesis using e True by simp
    next
      case False
      then show ?thesis using e by simp
    qed
  qed
qed

lemma shuffles_store_writes:
  "run \<in> shuffles a b \<Longrightarrow>
   mset (store_writes run) = mset (store_writes a) + mset (store_writes b)"
proof (induction a b arbitrary: run rule: shuffles.induct)
  case (1 ys)
  then show ?case by simp
next
  case (2 xs)
  then show ?case by simp
next
  case (3 x xs y ys)
  from "3.prems" consider
    (left) r where "run = x # r" "r \<in> shuffles xs (y # ys)"
    | (right) r where "run = y # r" "r \<in> shuffles (x # xs) ys"
    by auto
  then show ?case
  proof cases
    case left
    then show ?thesis using "3.IH"(1) [of r] by (cases x) simp_all
  next
    case right
    then show ?thesis using "3.IH"(2) [of r] by (cases y) simp_all
  qed
qed

lemma store_writes_append: "store_writes (a @ b) = store_writes a @ store_writes b"
  by (induction a rule: store_writes.induct) simp_all

lemma interleavings_store_writes:
  "run \<in> interleavings workers \<Longrightarrow>
   mset (store_writes run) = mset (store_writes (concat workers))"
proof (induction workers arbitrary: run)
  case Nil
  then show ?case by simp
next
  case (Cons w ws)
  then obtain rest where r: "rest \<in> interleavings ws" "run \<in> shuffles w rest" by auto
  show ?case
    using shuffles_store_writes [OF r(2)] Cons.IH [OF r(1)] by (simp add: store_writes_append)
qed

lemma store_writes_PutReader: "store_writes (map PutReader paths) = paths"
  by (induction paths) simp_all

text \<open>The store writes of one page, when every step of the three uploads succeeds.\<close>

lemma uploadPage_success:
  assumes "\<forall>local\<in>{jpegPath, smallJPEGPath, largeJPEGPath}.
             os_Open rt (fmt_Sprintf rt local [IntArg p]) = None \<and>
             file_Stat rt (fmt_Sprintf rt local [IntArg p]) = None"
    and "\<forall>remote\<in>{s3JPEGPath, s3SmallJPEGPath, s3LargeJPEGPath}.
             bucket_PutReader rt (fmt_Sprintf rt remote [IntArg p]) = None"
  shows "uploadPage rt jpegPath smallJPEGPath largeJPEGPath s3JPEGPath s3SmallJPEGPath
           s3LargeJPEGPath p
         = (None, map PutReader [fmt_Sprintf rt s3JPEGPath [IntArg p],
                                 fmt_Sprintf rt s3SmallJPEGPath [IntArg p],
                                 fmt_Sprintf rt s3LargeJPEGPath [IntArg p]])"
  using assms by (simp add: uploadPage_def uploadJPEGToS3_def Let_def)

lemma uploadJPEGRangeToS3_success:
  assumes "\<forall>p\<in>{firstPage..lastPage}. \<forall>local\<in>{jpegPath, smallJPEGPath, largeJPEGPath}.
             os_Open rt (fmt_Sprintf rt local [IntArg p]) = None \<and>
             file_Stat rt (fmt_Sprintf rt local [IntArg p]) = None"
    and "\<forall>p\<in>{firstPage..lastPage}. \<forall>remote\<in>{s3JPEGPath, s3SmallJPEGPath, s3LargeJPEGPath}.
             bucket_PutReader rt (fmt_Sprintf rt remote [IntArg p]) = None"
    and "- (2 ^ 63) \<le> firstPage" "lastPage < 2 ^ 63 - 1"
  shows "uploadJPEGRangeToS3 rt jpegPath smallJPEGPath largeJPEGPath s3JPEGPath s3SmallJPEGPath
           s3LargeJPEGPath firstPage lastPage
         = Some (None, map PutReader (concat (map (\<lambda>p.
                    [fmt_Sprintf rt s3JPEGPath [IntArg p],
                     fmt_Sprintf rt s3SmallJPEGPath [IntArg p],
                     fmt_Sprintf rt s3LargeJPEGPath [IntArg p]]) [firstPage..lastPage])))"
  using assms
proof (induction "nat (lastPage + 1 - firstPage)" arbitrary: firstPage)
  case 0
  then have "lastPage < firstPage" by simp
  then show ?case by (subst uploadJPEGRangeToS3.simps) simp
next
  case (Suc k)
  then have le: "firstPage \<le> lastPage" by simp
  have page: "uploadPage rt jpegPath smallJPEGPath largeJPEGPath s3JPEGPath s3SmallJPEGPath
                s3LargeJPEGPath firstPage
              = (None, map PutReader [fmt_Sprintf rt s3JPEGPath [IntArg firstPage],
                                      fmt_Sprintf rt s3SmallJPEGPath [IntArg firstPage],
                                      fmt_Sprintf rt s3LargeJPEGPath [IntArg firstPage]])"
    using Suc.prems(1,2) le by (intro uploadPage_success) simp_all
  have w: "wrap64 (firstPage + 1) = firstPage + 1"
    using Suc.prems(3,4) le by (intro wrap64_id) simp_all
  have k: "k = nat (lastPage + 1 - (firstPage + 1))" using Suc.hyps(2) by simp
  have rest: "uploadJPEGRangeToS3 rt jpegPath smallJPEGPath largeJPEGPath s3JPEGPath
                s3SmallJPEGPath s3LargeJPEGPath (firstPage + 1) lastPage
              = Some (None, map PutReader (concat (map (\<lambda>p.
                    [fmt_Sprintf rt s3JPEGPath [IntArg p],
                     fmt_Sprintf rt s3SmallJPEGPath [IntArg p],
                     fmt_Sprintf rt s3LargeJPEGPath [IntArg p]]) [firstPage + 1..lastPage])))"
    using Suc.prems by (intro Suc.hyps(1) [OF k]) simp_all
  have u: "[firstPage..lastPage] = firstPage # [firstPage + 1..lastPage]"
    using le by (simp add: upto_rec1)
  show ?case
    by (subst uploadJPEGRangeToS3.simps) (simp add: le page w rest u)
qed

lemma those_map_Some:
  "(\<And>x. x \<in> set xs \<Longrightarrow> f x = Some (g x)) \<Longrightarrow> those (map f xs) = Some (map g xs)"
  by (induction xs) simp_all

lemma wrap64_le: "wrap64 i \<le> 2 ^ 63 - 1"
  using pos_mod_bound [of "2 ^ 64" "i + 2 ^ 63"] by (simp add: wrap64_def)

text \<open>
  With \<open>2\<^sup>6\<^sup>3 - 1\<close> pages the loop test \<^verbatim>\<open>firstPage <= numPages\<close> holds for every
  \<^verbatim>\<open>int\<close>: the spawning loop never ends.
\<close>

lemma spawn_ranges_never_returns:
  assumes "spawn_ranges numPages perWorker firstPage = Some ranges"
  shows "\<not> (numPages = 2 ^ 63 - 1 \<and> firstPage \<le> 2 ^ 63 - 1)"
proof (rule spawn_ranges.raw_induct
    [where P = "\<lambda>n per f y. \<not> (n = 2 ^ 63 - 1 \<and> f \<le> 2 ^ 63 - 1)", OF _ assms])
  fix spawn :: "int \<Rightarrow> int \<Rightarrow> int \<Rightarrow> (int \<times> int) list option"
  fix n per f :: int and y :: "(int \<times> int) list"
  assume IH: "\<And>n per f y. spawn n per f = Some y \<Longrightarrow> \<not> (n = 2 ^ 63 - 1 \<and> f \<le> 2 ^ 63 - 1)"
    and body: "(if f \<le> n
      then Option.bind (spawn n per (wrap64 (f + per)))
            (\<lambda>rest. Some ((f, if n < wrap64 (f + per - 1) then n else wrap64 (f + per - 1)) # rest))
      else Some []) = Some y"
  show "\<not> (n = 2 ^ 63 - 1 \<and> f \<le> 2 ^ 63 - 1)"
  proof
    assume a: "n = 2 ^ 63 - 1 \<and> f \<le> 2 ^ 63 - 1"
    then have "f \<le> n" by simp
    then obtain rest where "spawn n per (wrap64 (f + per)) = Some rest"
      using body by (auto simp: bind_eq_Some_conv)
    then have "\<not> (n = 2 ^ 63 - 1 \<and> wrap64 (f + per) \<le> 2 ^ 63 - 1)" by (rule IH)
    then show False using a wrap64_le by blast
  qed
qed

lemma upload_worker_events:
  assumes ok: "\<forall>p\<in>{1..numPages}. \<forall>local\<in>{jpegPath, smallJPEGPath, largeJPEGPath}.
             os_Open rt (fmt_Sprintf rt local [IntArg p]) = None \<and>
             file_Stat rt (fmt_Sprintf rt local [IntArg p]) = None"
    "\<forall>p\<in>{1..numPages}. \<forall>remote\<in>{s3JPEGPath, s3SmallJPEGPath, s3LargeJPEGPath}.
             bucket_PutReader rt (fmt_Sprintf rt remote [IntArg p]) = None"
    and n: "numPages < 2 ^ 63 - 1" and per: "0 < perWorker"
    and r: "r \<in> set (planner_ranges numPages perWorker 1)"
  shows "uploadJPEGRangeToS3 rt jpegPath smallJPEGPath largeJPEGPath s3JPEGPath s3SmallJPEGPath
           s3LargeJPEGPath (fst r) (snd r)
         = Some (None, map PutReader (concat (map (\<lambda>p.
                    [fmt_Sprintf rt s3JPEGPath [IntArg p],
                     fmt_Sprintf rt s3SmallJPEGPath [IntArg p],
                     fmt_Sprintf rt s3LargeJPEGPath [IntArg p]]) [fst r..snd r])))"
proof -
  have b: "1 \<le> fst r" "snd r \<le> numPages" using planner_ranges_bounds [OF per r] by simp_all
  then have sub: "{fst r..snd r} \<subseteq> {1..numPages}" by auto
  show ?thesis
  proof (rule uploadJPEGRangeToS3_success)
    show "\<forall>p\<in>{fst r..snd r}. \<forall>local\<in>{jpegPath, smallJPEGPath, largeJPEGPath}.
             os_Open rt (fmt_Sprintf rt local [IntArg p]) = None \<and>
             file_Stat rt (fmt_Sprintf rt local [IntArg p]) = None"
      using ok(1) sub by (meson subsetD)
    show "\<forall>p\<in>{fst r..snd r}. \<forall>remote\<in>{s3JPEGPath, s3SmallJPEGPath, s3LargeJPEGPath}.
             bucket_PutReader rt (fmt_Sprintf rt remote [IntArg p]) = None"
      using ok(2) sub by (meson subsetD)
    show "- (2 ^ 63) \<le> fst r" using b(1) by simp
    show "snd r < 2 ^ 63 - 1" using b(2) n by simp
  qed
qed

lemma uploadAllJPEGsToS3_valid:
  assumes "Form ''s3JPEGPath'' = Some [s3JPEGPath]"
    and "Form ''s3SmallJPEGPath'' = Some [s3SmallJPEGPath]"
    and "Form ''s3LargeJPEGPath'' = Some [s3LargeJPEGPath]"
    and "strings_Contains s3JPEGPath ''%d''" "strings_Contains s3SmallJPEGPath ''%d''"
      "strings_Contains s3LargeJPEGPath ''%d''"
  shows "uploadAllJPEGsToS3 rt Form jpegPath smallJPEGPath largeJPEGPath numPages =
     (case spawn_ranges numPages (numPagesPerWorker numPages NUM_WORKERS_UPLOAD) 1 of
        None \<Rightarrow> None
      | Some ranges \<Rightarrow>
          (case those (map (\<lambda>r. uploadJPEGRangeToS3 rt jpegPath smallJPEGPath largeJPEGPath
                               s3JPEGPath s3SmallJPEGPath s3LargeJPEGPath (fst r) (snd r)) ranges) of
             None \<Rightarrow> None
           | Some workers \<Rightarrow> Some (None, map snd workers)))"
  using assms by (simp add: uploadAllJPEGsToS3_def cong: option.case_cong)

subsection \<open>A fully successful upload\<close>

text \<open>
  C1, as the specification states it, does not hold for every page count: the loop
  variable of the upload coordinator is a 64-bit integer, and with \<open>2\<^sup>6\<^sup>3 - 1\<close> pages
  it wraps around instead of exceeding the page count, so the coordinator goes on starting
  workers and never returns.
\<close>

theorem uploadAllJPEGsToS3_wraps_counterexample:
  "uploadAllJPEGsToS3 (quiet_runtime []) demo_form ''/tmp/x%d.jpg'' ''/tmp/x%d-small.jpg''
     ''/tmp/x%d-large.jpg'' 9223372036854775807 = None"
proof -
  have c: "strings_Contains ''page%d.jpg'' ''%d''" "strings_Contains ''thumbs/%d.jpg'' ''%d''"
    "strings_Contains ''big/%d.jpg'' ''%d''" by code_simp+
  have "spawn_ranges 9223372036854775807
          (numPagesPerWorker 9223372036854775807 NUM_WORKERS_UPLOAD) 1 = None"
    using spawn_ranges_never_returns
      [of 9223372036854775807 "numPagesPerWorker 9223372036854775807 NUM_WORKERS_UPLOAD" 1]
    by (cases "spawn_ranges 9223372036854775807
          (numPagesPerWorker 9223372036854775807 NUM_WORKERS_UPLOAD) 1") simp_all
  then show ?thesis
    using c by (subst uploadAllJPEGsToS3_valid [where s3JPEGPath = "''page%d.jpg''"
          and s3SmallJPEGPath = "''thumbs/%d.jpg''" and s3LargeJPEGPath = "''big/%d.jpg''"])
      (simp_all add: demo_form_def)
qed

text \<open>
  C1, amended: for every page count \<open>N\<close> from 1 below \<open>2\<^sup>6\<^sup>2\<close> and every request whose three
  remote templates pass validation, if the local file of every variant of every page from
  1 to \<open>N\<close> opens (as it does when the conversion of that page succeeded) and every store
  write succeeds, then the upload coordinator returns without error, and whatever the
  interleaving of its workers, the run performs exactly \<open>3N\<close> store writes, whose remote
  paths are the normal, small and large template with each page number from 1 to \<open>N\<close>
  substituted by \<^verbatim>\<open>fmt.Sprintf\<close>, each page and variant written exactly once.
\<close>

theorem uploadAllJPEGsToS3_writes_every_variant_once:
  assumes "1 \<le> numPages" "numPages < 2 ^ 62"
    and "Form ''s3JPEGPath'' = Some [s3JPEGPath]"
    and "Form ''s3SmallJPEGPath'' = Some [s3SmallJPEGPath]"
    and "Form ''s3LargeJPEGPath'' = Some [s3LargeJPEGPath]"
    and "strings_Contains s3JPEGPath ''%d''" "strings_Contains s3SmallJPEGPath ''%d''"
      "strings_Contains s3LargeJPEGPath ''%d''"
    and "\<forall>p\<in>{1..numPages}. \<forall>local\<in>{jpegPath, smallJPEGPath, largeJPEGPath}.
             os_Open rt (fmt_Sprintf rt local [IntArg p]) = None \<and>
             file_Stat rt (fmt_Sprintf rt local [IntArg p]) = None"
    and "\<forall>p\<in>{1..numPages}. \<forall>remote\<in>{s3JPEGPath, s3SmallJPEGPath, s3LargeJPEGPath}.
             bucket_PutReader rt (fmt_Sprintf rt remote [IntArg p]) = None"
  shows "\<exists>workers.
           uploadAllJPEGsToS3 rt Form jpegPath smallJPEGPath largeJPEGPath numPages
             = Some (None, workers) \<and>
           (\<forall>run\<in>interleavings workers.
              length (store_writes run) = 3 * nat numPages \<and>
              mset (store_writes run)
                = mset (concat (map (\<lambda>p. [fmt_Sprintf rt s3JPEGPath [IntArg p],
                                             fmt_Sprintf rt s3SmallJPEGPath [IntArg p],
                                             fmt_Sprintf rt s3LargeJPEGPath [IntArg p]])
                                    [1..numPages])))"
proof -
  define per where "per = numPagesPerWorker numPages NUM_WORKERS_UPLOAD"
  define paths where "paths = (\<lambda>p. [fmt_Sprintf rt s3JPEGPath [IntArg p],
                                      fmt_Sprintf rt s3SmallJPEGPath [IntArg p],
                                      fmt_Sprintf rt s3LargeJPEGPath [IntArg p]])"
  define ranges where "ranges = planner_ranges numPages per 1"
  define events where "events = (\<lambda>r. map PutReader (concat (map paths [fst r..snd r])))"
  have w: "1 \<le> NUM_WORKERS_UPLOAD" by (simp add: NUM_WORKERS_UPLOAD_def)
  have "numPages \<le> 2 ^ 62" using assms(2) by simp
  then have per: "0 < per"
    using numPagesPerWorker_bounds [OF assms(1) _ w] unfolding per_def by simp
  have "plan numPages NUM_WORKERS_UPLOAD = Some ranges"
    unfolding ranges_def per_def using assms(1,2) w by (intro plan_planner_steps) simp_all
  then have spawn: "spawn_ranges numPages (numPagesPerWorker numPages NUM_WORKERS_UPLOAD) 1
                      = Some ranges"
    by (simp add: plan_def)
  have small: "numPages < 2 ^ 63 - 1" using assms(2) by simp
  have worker: "\<And>r. r \<in> set ranges \<Longrightarrow>
      uploadJPEGRangeToS3 rt jpegPath smallJPEGPath largeJPEGPath s3JPEGPath s3SmallJPEGPath
        s3LargeJPEGPath (fst r) (snd r) = Some (None, events r)"
    unfolding ranges_def events_def paths_def
    by (rule upload_worker_events [OF assms(9) assms(10) small per])
  have those: "those (map (\<lambda>r. uploadJPEGRangeToS3 rt jpegPath smallJPEGPath largeJPEGPath
                   s3JPEGPath s3SmallJPEGPath s3LargeJPEGPath (fst r) (snd r)) ranges)
               = Some (map (\<lambda>r. (None, events r)) ranges)"
    by (rule those_map_Some) (rule worker)
  have result: "uploadAllJPEGsToS3 rt Form jpegPath smallJPEGPath largeJPEGPath numPages
                  = Some (None, map events ranges)"
    by (subst uploadAllJPEGsToS3_valid [OF assms(3-8)]) (simp add: spawn those comp_def)
  have all: "concat (map events ranges) = map PutReader (concat (map paths [1..numPages]))"
  proof -
    have "concat (map events ranges)
            = map PutReader (concat (map paths (concat (map (\<lambda>r. [fst r..snd r]) ranges))))"
      unfolding events_def by (induction ranges) simp_all
    then show ?thesis unfolding ranges_def by (simp only: planner_ranges_concat [OF per])
  qed
  have len: "length (concat (map paths [1..numPages])) = 3 * nat numPages"
  proof -
    have "\<And>ps. length (concat (map paths ps)) = 3 * length ps"
    proof -
      fix ps show "length (concat (map paths ps)) = 3 * length ps"
        by (induction ps) (simp_all add: paths_def)
    qed
    then show ?thesis using assms(1) by simp
  qed
  have "\<forall>run\<in>interleavings (map events ranges).
          length (store_writes run) = 3 * nat numPages \<and>
          mset (store_writes run) = mset (concat (map paths [1..numPages]))"
  proof
    fix run assume "run \<in> interleavings (map events ranges)"
    then have m: "mset (store_writes run) = mset (concat (map paths [1..numPages]))"
      using interleavings_store_writes [of run "map events ranges"]
      by (simp add: all store_writes_PutReader)
    then have "size (mset (store_writes run)) = size (mset (concat (map paths [1..numPages])))"
      by simp
    then have "length (store_writes run) = 3 * nat numPages" using len by simp
    then show "length (store_writes run) = 3 * nat numPages \<and>
          mset (store_writes run) = mset (concat (map paths [1..numPages]))" using m by simp
  qed
  then show ?thesis using result unfolding paths_def by blast
qed

theorem uploadAllJPEGsToS3_writes_every_variant_once_witness:
  "\<exists>workers.
     uploadAllJPEGsToS3 (quiet_runtime []) demo_form ''/tmp/x%d.jpg'' ''/tmp/x%d-small.jpg''
       ''/tmp/x%d-large.jpg'' 2 = Some (None, workers) \<and>
     (\<forall>run\<in>interleavings workers.
        length (store_writes run) = 6 \<and>
        mset (store_writes run)
          = mset [''page1.jpg'', ''thumbs/1.jpg'', ''big/1.jpg'',
                  ''page2.jpg'', ''thumbs/2.jpg'', ''big/2.jpg''])"
proof -
  let ?rt = "quiet_runtime []"
  have c: "strings_Contains ''page%d.jpg'' ''%d''" "strings_Contains ''thumbs/%d.jpg'' ''%d''"
    "strings_Contains ''big/%d.jpg'' ''%d''" by code_simp+
  have p: "concat (map (\<lambda>p. [fmt_Sprintf ?rt ''page%d.jpg'' [IntArg p],
                              fmt_Sprintf ?rt ''thumbs/%d.jpg'' [IntArg p],
                              fmt_Sprintf ?rt ''big/%d.jpg'' [IntArg p]]) [1..2])
           = [''page1.jpg'', ''thumbs/1.jpg'', ''big/1.jpg'',
              ''page2.jpg'', ''thumbs/2.jpg'', ''big/2.jpg'']"
    by code_simp
  have "\<exists>workers.
     uploadAllJPEGsToS3 ?rt demo_form ''/tmp/x%d.jpg'' ''/tmp/x%d-small.jpg''
       ''/tmp/x%d-large.jpg'' 2 = Some (None, workers) \<and>
     (\<forall>run\<in>interleavings workers.
        length (store_writes run) = 3 * nat 2 \<and>
        mset (store_writes run)
          = mset (concat (map (\<lambda>p. [fmt_Sprintf ?rt ''page%d.jpg'' [IntArg p],
                              fmt_Sprintf ?rt ''thumbs/%d.jpg'' [IntArg p],
                              fmt_Sprintf ?rt ''big/%d.jpg'' [IntArg p]]) [1..2])))"
    by (rule uploadAllJPEGsToS3_writes_every_variant_once)
      (simp_all add: demo_form_def c quiet_runtime_def)
  then show ?thesis unfolding p by simp
qed

subsection \<open>Variant templates\<close>

lemma Sprintf_literal:
  "CHR ''%'' \<notin> set lit \<Longrightarrow> Sprintf (lit @ format) as = map_option ((@) lit) (Sprintf format as)"
proof (induction lit)
  case Nil
  show ?case by (cases "Sprintf format as") simp_all
next
  case (Cons c lit)
  then have c: "c \<noteq> CHR ''%''" and ih: "Sprintf (lit @ format) as
      = map_option ((@) lit) (Sprintf format as)" by auto
  show ?case
  proof (cases "lit @ format")
    case Nil
    then show ?thesis using c by (cases "Sprintf [] as") simp_all
  next
    case (Cons verb rest)
    then have "Sprintf ((c # lit) @ format) as = map_option ((#) c) (Sprintf (lit @ format) as)"
      using c by simp
    then show ?thesis using ih by (cases "Sprintf format as") simp_all
  qed
qed

lemma Sprintf_no_directive: "CHR ''%'' \<notin> set lit \<Longrightarrow> Sprintf lit [] = Some lit"
  using Sprintf_literal [of lit "[]" "[]"] by simp

lemma Sprintf_placeholder:
  assumes "CHR ''%'' \<notin> set pre" "CHR ''%'' \<notin> set post"
  shows "Sprintf (pre @ ''%d'' @ post) [IntArg n] = Some (pre @ itoa n @ post)"
proof -
  have p: "Sprintf post [] = Some post" using assms(2) by (rule Sprintf_no_directive)
  have "Sprintf (''%d'' @ post) [IntArg n] = Some (itoa n @ post)"
    using p by (simp add: is_letter_def)
  then show ?thesis using Sprintf_literal [OF assms(1), of "''%d'' @ post" "[IntArg n]"] by simp
qed

lemma Sprintf_string_directive:
  assumes "CHR ''%'' \<notin> set pre" "Sprintf post [] = Some out"
  shows "Sprintf (pre @ ''%s'' @ post) [StrArg s] = Some (pre @ s @ out)"
proof -
  have "Sprintf (''%s'' @ post) [StrArg s] = Some (s @ out)"
    using assms(2) by (simp add: is_letter_def)
  then show ?thesis using Sprintf_literal [OF assms(1), of "''%s'' @ post" "[StrArg s]"] by simp
qed

lemma strings_Replace_insert_suffix:
  "strings_Replace template ''%d'' (''%d'' @ lit) 1 = insert_suffix lit template"
  by (induction lit template rule: insert_suffix.induct) auto

lemma insert_suffix_first:
  "CHR ''%'' \<notin> set pre \<Longrightarrow> insert_suffix lit (pre @ ''%d'' @ post) = pre @ ''%d'' @ lit @ post"
proof (induction pre)
  case Nil
  show ?case by simp
next
  case (Cons c pre)
  then have c: "c \<noteq> CHR ''%''" and ih: "insert_suffix lit (pre @ ''%d'' @ post)
      = pre @ ''%d'' @ lit @ post" by auto
  obtain d rest where e: "pre @ ''%d'' @ post = d # rest" by (cases pre) simp_all
  have "insert_suffix lit (c # d # rest) = c # insert_suffix lit (d # rest)" using c by simp
  then show ?case using ih unfolding e [symmetric] by (simp add: e)
qed

lemma generateRandomString_alphanumeric:
  "set (generateRandomString rt call len) \<subseteq> set ALPHA_NUMERIC"
proof -
  have "\<And>i. rand_Read rt call i mod 256 mod length ALPHA_NUMERIC < length ALPHA_NUMERIC"
    by (simp add: ALPHA_NUMERIC_def)
  then show ?thesis by (auto simp: generateRandomString_def)
qed

lemma generateRandomString_no_percent: "CHR ''%'' \<notin> set (generateRandomString rt call len)"
proof -
  have "CHR ''%'' \<notin> set ALPHA_NUMERIC" by (simp add: ALPHA_NUMERIC_def)
  then show ?thesis using generateRandomString_alphanumeric by blast
qed

text \<open>What \<^verbatim>\<open>fmt.Sprintf\<close> returns for the format strings of the two servers.\<close>

lemma local_templates:
  assumes "extends_Sprintf (fmt_Sprintf rt)"
  shows "fmt_Sprintf rt ''/tmp/%s%%d.jpg'' [StrArg s] = ''/tmp/'' @ s @ ''%d.jpg''"
    and "fmt_Sprintf rt ''/tmp/%s%%d-small.jpg'' [StrArg s] = ''/tmp/'' @ s @ ''%d-small.jpg''"
    and "fmt_Sprintf rt ''/tmp/%s%%d-large.jpg'' [StrArg s] = ''/tmp/'' @ s @ ''%d-large.jpg''"
proof -
  have ext: "\<And>format as out. Sprintf format as = Some out \<Longrightarrow> fmt_Sprintf rt format as = out"
    using assms by (simp add: extends_Sprintf_def)
  have p: "CHR ''%'' \<notin> set ''/tmp/''" by simp
  have e: "Sprintf ''%%d.jpg'' [] = Some ''%d.jpg''"
    "Sprintf ''%%d-small.jpg'' [] = Some ''%d-small.jpg''"
    "Sprintf ''%%d-large.jpg'' [] = Some ''%d-large.jpg''" by code_simp+
  show "fmt_Sprintf rt ''/tmp/%s%%d.jpg'' [StrArg s] = ''/tmp/'' @ s @ ''%d.jpg''"
    using Sprintf_string_directive [OF p e(1), of s] by (intro ext) simp
  show "fmt_Sprintf rt ''/tmp/%s%%d-small.jpg'' [StrArg s] = ''/tmp/'' @ s @ ''%d-small.jpg''"
    using Sprintf_string_directive [OF p e(2), of s] by (intro ext) simp
  show "fmt_Sprintf rt ''/tmp/%s%%d-large.jpg'' [StrArg s] = ''/tmp/'' @ s @ ''%d-large.jpg''"
    using Sprintf_string_directive [OF p e(3), of s] by (intro ext) simp
qed

lemma page_path:
  assumes "extends_Sprintf (fmt_Sprintf rt)" "CHR ''%'' \<notin> set pre" "CHR ''%'' \<notin> set post"
  shows "fmt_Sprintf rt (pre @ ''%d'' @ post) [IntArg p] = pre @ itoa p @ post"
  using assms(1) Sprintf_placeholder [OF assms(2,3), of p] by (simp add: extends_Sprintf_def)

lemma command_options:
  assumes "extends_Sprintf (fmt_Sprintf rt)"
  shows "fmt_Sprintf rt ''-dFirstPage=%d'' [IntArg p] = ''-dFirstPage='' @ itoa p"
    and "fmt_Sprintf rt ''-dLastPage=%d'' [IntArg p] = ''-dLastPage='' @ itoa p"
    and "fmt_Sprintf rt ''-sOutputFile=%s'' [StrArg s] = ''-sOutputFile='' @ s"
    and "fmt_Sprintf rt ''%dx%d'' [IntArg 800, IntArg 800] = ''800x800''"
    and "fmt_Sprintf rt ''%dx%d'' [IntArg 300, IntArg 300] = ''300x300''"
proof -
  have ext: "\<And>format as out. Sprintf format as = Some out \<Longrightarrow> fmt_Sprintf rt format as = out"
    using assms by (simp add: extends_Sprintf_def)
  show "fmt_Sprintf rt ''-dFirstPage=%d'' [IntArg p] = ''-dFirstPage='' @ itoa p"
    using page_path [OF assms, of "''-dFirstPage=''" "[]" p] by simp
  show "fmt_Sprintf rt ''-dLastPage=%d'' [IntArg p] = ''-dLastPage='' @ itoa p"
    using page_path [OF assms, of "''-dLastPage=''" "[]" p] by simp
  have "Sprintf (''-sOutputFile='' @ ''%s'' @ []) [StrArg s] = Some (''-sOutputFile='' @ s @ [])"
    by (rule Sprintf_string_directive) simp_all
  then show "fmt_Sprintf rt ''-sOutputFile=%s'' [StrArg s] = ''-sOutputFile='' @ s"
    by (intro ext) simp
  show "fmt_Sprintf rt ''%dx%d'' [IntArg 800, IntArg 800] = ''800x800''"
    by (rule ext) code_simp
  show "fmt_Sprintf rt ''%dx%d'' [IntArg 300, IntArg 300] = ''300x300''"
    by (rule ext) code_simp
qed

text \<open>The ranges of the workers when nothing wraps, and what their events add up to.\<close>

lemma spawned_ranges:
  assumes "1 \<le> numPages" "numPages < 2 ^ 62" "1 \<le> workerCount"
  obtains ranges where
    "spawn_ranges numPages (numPagesPerWorker numPages workerCount) 1 = Some ranges"
    "\<And>r. r \<in> set ranges \<Longrightarrow> 1 \<le> fst r \<and> snd r \<le> numPages"
    "concat (map (\<lambda>r. [fst r..snd r]) ranges) = [1..numPages]"
proof -
  define per where "per = numPagesPerWorker numPages workerCount"
  have "numPages \<le> 2 ^ 62" using assms(2) by simp
  then have per: "0 < per"
    using numPagesPerWorker_bounds [OF assms(1) _ assms(3)] unfolding per_def by simp
  have "plan numPages workerCount = Some (planner_ranges numPages per 1)"
    unfolding per_def using assms by (intro plan_planner_steps) simp_all
  then have 1: "spawn_ranges numPages (numPagesPerWorker numPages workerCount) 1
                  = Some (planner_ranges numPages per 1)"
    by (simp add: plan_def per_def)
  have 2: "\<And>r. r \<in> set (planner_ranges numPages per 1) \<Longrightarrow> 1 \<le> fst r \<and> snd r \<le> numPages"
    using planner_ranges_bounds [OF per] by blast
  have 3: "concat (map (\<lambda>r. [fst r..snd r]) (planner_ranges numPages per 1)) = [1..numPages]"
    by (rule planner_ranges_concat [OF per])
  show ?thesis using that [OF 1 2 3] .
qed

lemma concat_ranges:
  "concat (map (\<lambda>r. concat (map g [fst r..snd r])) ranges)
     = concat (map g (concat (map (\<lambda>r. [fst r..snd r]) ranges)))"
  by (induction ranges) simp_all

lemma uploadJPEGRangeToS3_complete:
  assumes "\<And>p. p \<in> {firstPage..lastPage} \<Longrightarrow>
             fst (uploadPage rt jpegPath smallJPEGPath largeJPEGPath s3JPEGPath s3SmallJPEGPath
                    s3LargeJPEGPath p) = None"
    and "- (2 ^ 63) \<le> firstPage" "lastPage < 2 ^ 63 - 1"
  shows "uploadJPEGRangeToS3 rt jpegPath smallJPEGPath largeJPEGPath s3JPEGPath s3SmallJPEGPath
           s3LargeJPEGPath firstPage lastPage
         = Some (None, concat (map (\<lambda>p. snd (uploadPage rt jpegPath smallJPEGPath largeJPEGPath
                    s3JPEGPath s3SmallJPEGPath s3LargeJPEGPath p)) [firstPage..lastPage]))"
  using assms
proof (induction "nat (lastPage + 1 - firstPage)" arbitrary: firstPage)
  case 0
  then have "lastPage < firstPage" by simp
  then show ?case by (subst uploadJPEGRangeToS3.simps) simp
next
  case (Suc k)
  then have le: "firstPage \<le> lastPage" by simp
  have page: "fst (uploadPage rt jpegPath smallJPEGPath largeJPEGPath s3JPEGPath s3SmallJPEGPath
                     s3LargeJPEGPath firstPage) = None"
    using Suc.prems(1) le by simp
  have w: "wrap64 (firstPage + 1) = firstPage + 1"
    using Suc.prems(2,3) le by (intro wrap64_id) simp_all
  have k: "k = nat (lastPage + 1 - (firstPage + 1))" using Suc.hyps(2) by simp
  have rest: "uploadJPEGRangeToS3 rt jpegPath smallJPEGPath largeJPEGPath s3JPEGPath
                s3SmallJPEGPath s3LargeJPEGPath (firstPage + 1) lastPage
              = Some (None, concat (map (\<lambda>p. snd (uploadPage rt jpegPath smallJPEGPath
                    largeJPEGPath s3JPEGPath s3SmallJPEGPath s3LargeJPEGPath p))
                    [firstPage + 1..lastPage]))"
    using Suc.prems by (intro Suc.hyps(1) [OF k]) simp_all
  have u: "[firstPage..lastPage] = firstPage # [firstPage + 1..lastPage]"
    using le by (simp add: upto_rec1)
  show ?case
    by (subst uploadJPEGRangeToS3.simps) (simp add: le page w rest u)
qed

text \<open>A run of \<^verbatim>\<open>server.go\<close> in which no worker stops early.\<close>

lemma convertPagesToJPEGs_success:
  assumes "\<And>p. p \<in> {firstPage..lastPage} \<Longrightarrow>
             fst (convertPage rt pdfPath jpegPath smallJPEGPath largeJPEGPath p)"
    and "- (2 ^ 63) \<le> firstPage" "lastPage < 2 ^ 63 - 1"
  shows "convertPagesToJPEGs rt pdfPath jpegPath smallJPEGPath largeJPEGPath firstPage lastPage
         = Some (concat (map (\<lambda>p. snd (convertPage rt pdfPath jpegPath smallJPEGPath
                                           largeJPEGPath p)) [firstPage..lastPage]))"
  using assms
proof (induction "nat (lastPage + 1 - firstPage)" arbitrary: firstPage)
  case 0
  then have "lastPage < firstPage" by simp
  then show ?case by (subst convertPagesToJPEGs.simps) simp
next
  case (Suc k)
  then have le: "firstPage \<le> lastPage" by simp
  have page: "fst (convertPage rt pdfPath jpegPath smallJPEGPath largeJPEGPath firstPage)"
    using Suc.prems(1) le by simp
  have w: "wrap64 (firstPage + 1) = firstPage + 1"
    using Suc.prems(2,3) le by (intro wrap64_id) simp_all
  have k: "k = nat (lastPage + 1 - (firstPage + 1))" using Suc.hyps(2) by simp
  have rest: "convertPagesToJPEGs rt pdfPath jpegPath smallJPEGPath largeJPEGPath
                (firstPage + 1) lastPage
              = Some (concat (map (\<lambda>p. snd (convertPage rt pdfPath jpegPath smallJPEGPath
                                                largeJPEGPath p)) [firstPage + 1..lastPage]))"
    using Suc.prems by (intro Suc.hyps(1) [OF k]) simp_all
  have u: "[firstPage..lastPage] = firstPage # [firstPage + 1..lastPage]"
    using le by (simp add: upto_rec1)
  show ?case
    by (subst convertPagesToJPEGs.simps) (simp add: le page w rest u)
qed

lemma convertPDFToJPEGs_events:
  assumes "getNumPages rt pdfPath = Inr numPages" "1 \<le> numPages" "numPages < 2 ^ 62"
    and ok: "\<And>p. p \<in> {1..numPages} \<Longrightarrow>
             fst (convertPage rt pdfPath jpegPath smallJPEGPath largeJPEGPath p)"
  obtains converted where
    "convertPDFToJPEGs rt pdfPath jpegPath smallJPEGPath largeJPEGPath
       = Some (Inr numPages, converted)"
    "concat converted
       = concat (map (\<lambda>p. snd (convertPage rt pdfPath jpegPath smallJPEGPath largeJPEGPath p))
                   [1..numPages])"
proof -
  define g where "g = (\<lambda>p. snd (convertPage rt pdfPath jpegPath smallJPEGPath largeJPEGPath p))"
  have w: "1 \<le> NUM_WORKERS_CONVERT" by (simp add: NUM_WORKERS_CONVERT_def)
  obtain ranges where
    spawn: "spawn_ranges numPages (numPagesPerWorker numPages NUM_WORKERS_CONVERT) 1 = Some ranges"
    and bounds: "\<And>r. r \<in> set ranges \<Longrightarrow> 1 \<le> fst r \<and> snd r \<le> numPages"
    and cover: "concat (map (\<lambda>r. [fst r..snd r]) ranges) = [1..numPages]"
    using spawned_ranges [OF assms(2,3) w] by blast
  have worker: "\<And>r. r \<in> set ranges \<Longrightarrow>
      convertPagesToJPEGs rt pdfPath jpegPath smallJPEGPath largeJPEGPath (fst r) (snd r)
        = Some (concat (map g [fst r..snd r]))"
  proof -
    fix r assume r: "r \<in> set ranges"
    have b: "1 \<le> fst r" "snd r \<le> numPages" using bounds [OF r] by simp_all
    show "convertPagesToJPEGs rt pdfPath jpegPath smallJPEGPath largeJPEGPath (fst r) (snd r)
            = Some (concat (map g [fst r..snd r]))"
      unfolding g_def
    proof (rule convertPagesToJPEGs_success)
      fix p assume "p \<in> {fst r..snd r}"
      then have "p \<in> {1..numPages}" using b by simp
      then show "fst (convertPage rt pdfPath jpegPath smallJPEGPath largeJPEGPath p)" by (rule ok)
    next
      show "- (2 ^ 63) \<le> fst r" using b(1) by simp
      show "snd r < 2 ^ 63 - 1" using b(2) assms(3) by simp
    qed
  qed
  have those: "those (map (\<lambda>r. convertPagesToJPEGs rt pdfPath jpegPath smallJPEGPath
                   largeJPEGPath (fst r) (snd r)) ranges)
               = Some (map (\<lambda>r. concat (map g [fst r..snd r])) ranges)"
    by (rule those_map_Some) (rule worker)
  have 1: "convertPDFToJPEGs rt pdfPath jpegPath smallJPEGPath largeJPEGPath
             = Some (Inr numPages, map (\<lambda>r. concat (map g [fst r..snd r])) ranges)"
    using assms(1) spawn those by (simp add: convertPDFToJPEGs_def)
  have 2: "concat (map (\<lambda>r. concat (map g [fst r..snd r])) ranges) = concat (map g [1..numPages])"
    by (simp only: concat_ranges cover)
  show ?thesis using that [OF 1] 2 unfolding g_def by blast
qed

lemma uploadAllJPEGsToS3_events:
  assumes "1 \<le> numPages" "numPages < 2 ^ 62"
    and "Form ''s3JPEGPath'' = Some [s3JPEGPath]"
    and "Form ''s3SmallJPEGPath'' = Some [s3SmallJPEGPath]"
    and "Form ''s3LargeJPEGPath'' = Some [s3LargeJPEGPath]"
    and "strings_Contains s3JPEGPath ''%d''" "strings_Contains s3SmallJPEGPath ''%d''"
      "strings_Contains s3LargeJPEGPath ''%d''"
    and ok: "\<And>p. p \<in> {1..numPages} \<Longrightarrow>
             fst (uploadPage rt jpegPath smallJPEGPath largeJPEGPath s3JPEGPath s3SmallJPEGPath
                    s3LargeJPEGPath p) = None"
  obtains uploaded where
    "uploadAllJPEGsToS3 rt Form jpegPath smallJPEGPath largeJPEGPath numPages
       = Some (None, uploaded)"
    "concat uploaded
       = concat (map (\<lambda>p. snd (uploadPage rt jpegPath smallJPEGPath largeJPEGPath s3JPEGPath
                                   s3SmallJPEGPath s3LargeJPEGPath p)) [1..numPages])"
proof -
  define g where "g = (\<lambda>p. snd (uploadPage rt jpegPath smallJPEGPath largeJPEGPath s3JPEGPath
                                    s3SmallJPEGPath s3LargeJPEGPath p))"
  have w: "1 \<le> NUM_WORKERS_UPLOAD" by (simp add: NUM_WORKERS_UPLOAD_def)
  obtain ranges where
    spawn: "spawn_ranges numPages (numPagesPerWorker numPages NUM_WORKERS_UPLOAD) 1 = Some ranges"
    and bounds: "\<And>r. r \<in> set ranges \<Longrightarrow> 1 \<le> fst r \<and> snd r \<le> numPages"
    and cover: "concat (map (\<lambda>r. [fst r..snd r]) ranges) = [1..numPages]"
    using spawned_ranges [OF assms(1,2) w] by blast
  have worker: "\<And>r. r \<in> set ranges \<Longrightarrow>
      uploadJPEGRangeToS3 rt jpegPath smallJPEGPath largeJPEGPath s3JPEGPath s3SmallJPEGPath
        s3LargeJPEGPath (fst r) (snd r) = Some (None, concat (map g [fst r..snd r]))"
  proof -
    fix r assume r: "r \<in> set ranges"
    have b: "1 \<le> fst r" "snd r \<le> numPages" using bounds [OF r] by simp_all
    show "uploadJPEGRangeToS3 rt jpegPath smallJPEGPath largeJPEGPath s3JPEGPath s3SmallJPEGPath
            s3LargeJPEGPath (fst r) (snd r) = Some (None, concat (map g [fst r..snd r]))"
      unfolding g_def
    proof (rule uploadJPEGRangeToS3_complete)
      fix p assume "p \<in> {fst r..snd r}"
      then have "p \<in> {1..numPages}" using b by simp
      then show "fst (uploadPage rt jpegPath smallJPEGPath largeJPEGPath s3JPEGPath
                        s3SmallJPEGPath s3LargeJPEGPath p) = None" by (rule ok)
    next
      show "- (2 ^ 63) \<le> fst r" using b(1) by simp
      show "snd r < 2 ^ 63 - 1" using b(2) assms(2) by simp
    qed
  qed
  have those: "those (map (\<lambda>r. uploadJPEGRangeToS3 rt jpegPath smallJPEGPath largeJPEGPath
                   s3JPEGPath s3SmallJPEGPath s3LargeJPEGPath (fst r) (snd r)) ranges)
               = Some (map (\<lambda>r. (None, concat (map g [fst r..snd r]))) ranges)"
    by (rule those_map_Some) (rule worker)
  have 1: "uploadAllJPEGsToS3 rt Form jpegPath smallJPEGPath largeJPEGPath numPages
             = Some (None, map (\<lambda>r. concat (map g [fst r..snd r])) ranges)"
    by (subst uploadAllJPEGsToS3_valid [OF assms(3-8)]) (simp add: spawn those comp_def)
  have 2: "concat (map (\<lambda>r. concat (map g [fst r..snd r])) ranges) = concat (map g [1..numPages])"
    by (simp only: concat_ranges cover)
  show ?thesis using that [OF 1] 2 unfolding g_def by blast
qed

lemma convertPage_commands:
  assumes ext: "extends_Sprintf (fmt_Sprintf rt)"
    and run: "\<forall>name args. cmd_Run rt name args = None"
    and np: "CHR ''%'' \<notin> set jpegPrefix"
  shows "convertPage rt pdfPath (''/tmp/'' @ jpegPrefix @ ''%d.jpg'')
           (''/tmp/'' @ jpegPrefix @ ''%d-small.jpg'') (''/tmp/'' @ jpegPrefix @ ''%d-large.jpg'') p
         = (True,
            [Exec ''gs'' [''-dNOPAUSE'', ''-sDEVICE=jpeg'', ''-dFirstPage='' @ itoa p,
                          ''-dLastPage='' @ itoa p,
                          ''-sOutputFile=/tmp/'' @ jpegPrefix @ itoa p @ ''-large.jpg'',
                          ''-dJPEGQ=90'', ''-r200'', ''-q'', pdfPath, ''-c'', ''quit''],
             Exec ''convert'' [''-resize'', ''800x800'',
                               ''/tmp/'' @ jpegPrefix @ itoa p @ ''-large.jpg'',
                               ''/tmp/'' @ jpegPrefix @ itoa p @ ''.jpg''],
             Exec ''convert'' [''-resize'', ''300x300'',
                               ''/tmp/'' @ jpegPrefix @ itoa p @ ''.jpg'',
                               ''/tmp/'' @ jpegPrefix @ itoa p @ ''-small.jpg'']])"
proof -
  have pre: "CHR ''%'' \<notin> set (''/tmp/'' @ jpegPrefix)" using np by simp
  have n: "fmt_Sprintf rt (''/tmp/'' @ jpegPrefix @ ''%d.jpg'') [IntArg p]
             = ''/tmp/'' @ jpegPrefix @ itoa p @ ''.jpg''"
    using page_path [OF ext pre, of "''.jpg''" p] by simp
  have s: "fmt_Sprintf rt (''/tmp/'' @ jpegPrefix @ ''%d-small.jpg'') [IntArg p]
             = ''/tmp/'' @ jpegPrefix @ itoa p @ ''-small.jpg''"
    using page_path [OF ext pre, of "''-small.jpg''" p] by simp
  have l: "fmt_Sprintf rt (''/tmp/'' @ jpegPrefix @ ''%d-large.jpg'') [IntArg p]
             = ''/tmp/'' @ jpegPrefix @ itoa p @ ''-large.jpg''"
    using page_path [OF ext pre, of "''-large.jpg''" p] by simp
  show ?thesis
    unfolding convertPage_def resizeAndSaveImage_def gs_args_def n s l
    by (simp add: Let_def run command_options [OF ext])
qed

lemma uploadPage_writes:
  assumes ext: "extends_Sprintf (fmt_Sprintf rt)"
    and np: "CHR ''%'' \<notin> set jpegPrefix"
    and opens: "\<forall>variant\<in>{''.jpg'', ''-small.jpg'', ''-large.jpg''}.
             os_Open rt (''/tmp/'' @ jpegPrefix @ itoa p @ variant) = None \<and>
             file_Stat rt (''/tmp/'' @ jpegPrefix @ itoa p @ variant) = None"
    and puts: "\<forall>remote\<in>{s3JPEGPath, s3SmallJPEGPath, s3LargeJPEGPath}.
             bucket_PutReader rt (fmt_Sprintf rt remote [IntArg p]) = None"
  shows "uploadPage rt (''/tmp/'' @ jpegPrefix @ ''%d.jpg'')
           (''/tmp/'' @ jpegPrefix @ ''%d-small.jpg'') (''/tmp/'' @ jpegPrefix @ ''%d-large.jpg'')
           s3JPEGPath s3SmallJPEGPath s3LargeJPEGPath p
         = (None, [PutReader (fmt_Sprintf rt s3JPEGPath [IntArg p]),
                   PutReader (fmt_Sprintf rt s3SmallJPEGPath [IntArg p]),
                   PutReader (fmt_Sprintf rt s3LargeJPEGPath [IntArg p])])"
proof -
  have pre: "CHR ''%'' \<notin> set (''/tmp/'' @ jpegPrefix)" using np by simp
  have n: "fmt_Sprintf rt (''/tmp/'' @ jpegPrefix @ ''%d.jpg'') [IntArg p]
             = ''/tmp/'' @ jpegPrefix @ itoa p @ ''.jpg''"
    using page_path [OF ext pre, of "''.jpg''" p] by simp
  have s: "fmt_Sprintf rt (''/tmp/'' @ jpegPrefix @ ''%d-small.jpg'') [IntArg p]
             = ''/tmp/'' @ jpegPrefix @ itoa p @ ''-small.jpg''"
    using page_path [OF ext pre, of "''-small.jpg''" p] by simp
  have l: "fmt_Sprintf rt (''/tmp/'' @ jpegPrefix @ ''%d-large.jpg'') [IntArg p]
             = ''/tmp/'' @ jpegPrefix @ itoa p @ ''-large.jpg''"
    using page_path [OF ext pre, of "''-large.jpg''" p] by simp
  show ?thesis
    unfolding uploadPage_def uploadJPEGToS3_def n s l using opens puts by (simp add: Let_def)
qed

lemma convert_templates:
  assumes "extends_Sprintf (fmt_Sprintf rt)" "connectToS3 rt = None"
    "fetchPDF rt Form = Inr pdfPath" "jpegPrefix = generateRandomString rt 1 50"
  shows "convert rt ''POST'' Form =
     (case convertPDFToJPEGs rt pdfPath (''/tmp/'' @ jpegPrefix @ ''%d.jpg'')
             (''/tmp/'' @ jpegPrefix @ ''%d-small.jpg'') (''/tmp/'' @ jpegPrefix @ ''%d-large.jpg'') of
        None \<Rightarrow> None
      | Some (Inl err, converted) \<Rightarrow> Some (InternalServerError err, converted)
      | Some (Inr numPages, converted) \<Rightarrow>
          (case uploadAllJPEGsToS3 rt Form (''/tmp/'' @ jpegPrefix @ ''%d.jpg'')
                  (''/tmp/'' @ jpegPrefix @ ''%d-small.jpg'')
                  (''/tmp/'' @ jpegPrefix @ ''%d-large.jpg'') numPages of
             None \<Rightarrow> None
           | Some (Some err, uploaded) \<Rightarrow> Some (InternalServerError err, converted @ uploaded)
           | Some (None, uploaded) \<Rightarrow> Some (Written (''Done'' @ [NL]), converted @ uploaded)))"
  unfolding assms(4) convert_def Let_def local_templates [OF assms(1)]
  by (simp only: assms(2,3) option.simps sum.simps simp_thms if_False)

lemma convert_run:
  assumes ext: "extends_Sprintf (fmt_Sprintf rt)"
    and conn: "connectToS3 rt = None"
    and fetch: "fetchPDF rt Form = Inr pdfPath"
    and prefix: "jpegPrefix = generateRandomString rt 1 50"
    and count: "getNumPages rt pdfPath = Inr numPages"
    and n: "1 \<le> numPages" "numPages < 2 ^ 62"
    and form: "Form ''s3JPEGPath'' = Some [s3JPEGPath]"
      "Form ''s3SmallJPEGPath'' = Some [s3SmallJPEGPath]"
      "Form ''s3LargeJPEGPath'' = Some [s3LargeJPEGPath]"
      "strings_Contains s3JPEGPath ''%d''" "strings_Contains s3SmallJPEGPath ''%d''"
      "strings_Contains s3LargeJPEGPath ''%d''"
    and run: "\<forall>name args. cmd_Run rt name args = None"
    and opens: "\<forall>p\<in>{1..numPages}. \<forall>variant\<in>{''.jpg'', ''-small.jpg'', ''-large.jpg''}.
             os_Open rt (''/tmp/'' @ jpegPrefix @ itoa p @ variant) = None \<and>
             file_Stat rt (''/tmp/'' @ jpegPrefix @ itoa p @ variant) = None"
    and puts: "\<forall>p\<in>{1..numPages}. \<forall>remote\<in>{s3JPEGPath, s3SmallJPEGPath, s3LargeJPEGPath}.
             bucket_PutReader rt (fmt_Sprintf rt remote [IntArg p]) = None"
  shows "\<exists>converted uploaded.
           convert rt ''POST'' Form = Some (Written (''Done'' @ [NL]), converted @ uploaded) \<and>
           concat converted = concat (map (\<lambda>p.
             [Exec ''gs'' [''-dNOPAUSE'', ''-sDEVICE=jpeg'', ''-dFirstPage='' @ itoa p,
                           ''-dLastPage='' @ itoa p,
                           ''-sOutputFile=/tmp/'' @ jpegPrefix @ itoa p @ ''-large.jpg'',
                           ''-dJPEGQ=90'', ''-r200'', ''-q'', pdfPath, ''-c'', ''quit''],
              Exec ''convert'' [''-resize'', ''800x800'',
                                ''/tmp/'' @ jpegPrefix @ itoa p @ ''-large.jpg'',
                                ''/tmp/'' @ jpegPrefix @ itoa p @ ''.jpg''],
              Exec ''convert'' [''-resize'', ''300x300'',
                                ''/tmp/'' @ jpegPrefix @ itoa p @ ''.jpg'',
                                ''/tmp/'' @ jpegPrefix @ itoa p @ ''-small.jpg'']]) [1..numPages]) \<and>
           concat uploaded = concat (map (\<lambda>p.
             [PutReader (fmt_Sprintf rt s3JPEGPath [IntArg p]),
              PutReader (fmt_Sprintf rt s3SmallJPEGPath [IntArg p]),
              PutReader (fmt_Sprintf rt s3LargeJPEGPath [IntArg p])]) [1..numPages])"
proof -
  let ?T = "''/tmp/'' @ jpegPrefix @ ''%d.jpg''"
  let ?TS = "''/tmp/'' @ jpegPrefix @ ''%d-small.jpg''"
  let ?TL = "''/tmp/'' @ jpegPrefix @ ''%d-large.jpg''"
  have np: "CHR ''%'' \<notin> set jpegPrefix" unfolding prefix by (rule generateRandomString_no_percent)
  note page = convertPage_commands [OF ext run np, of pdfPath]
  have ok: "\<And>p. fst (convertPage rt pdfPath ?T ?TS ?TL p)" by (simp only: page fst_conv)
  obtain converted where
    c1: "convertPDFToJPEGs rt pdfPath ?T ?TS ?TL = Some (Inr numPages, converted)" and
    c2: "concat converted = concat (map (\<lambda>p. snd (convertPage rt pdfPath ?T ?TS ?TL p)) [1..numPages])"
    by (rule convertPDFToJPEGs_events [OF count n ok])
  have up: "\<And>p. p \<in> {1..numPages} \<Longrightarrow>
      uploadPage rt ?T ?TS ?TL s3JPEGPath s3SmallJPEGPath s3LargeJPEGPath p
        = (None, [PutReader (fmt_Sprintf rt s3JPEGPath [IntArg p]),
                  PutReader (fmt_Sprintf rt s3SmallJPEGPath [IntArg p]),
                  PutReader (fmt_Sprintf rt s3LargeJPEGPath [IntArg p])])"
  proof -
    fix p assume p: "p \<in> {1..numPages}"
    show "uploadPage rt ?T ?TS ?TL s3JPEGPath s3SmallJPEGPath s3LargeJPEGPath p
        = (None, [PutReader (fmt_Sprintf rt s3JPEGPath [IntArg p]),
                  PutReader (fmt_Sprintf rt s3SmallJPEGPath [IntArg p]),
                  PutReader (fmt_Sprintf rt s3LargeJPEGPath [IntArg p])])"
      by (rule uploadPage_writes [OF ext np bspec [OF opens p] bspec [OF puts p]])
  qed
  have none: "\<And>p. p \<in> {1..numPages} \<Longrightarrow>
      fst (uploadPage rt ?T ?TS ?TL s3JPEGPath s3SmallJPEGPath s3LargeJPEGPath p) = None"
    by (simp only: up fst_conv)
  obtain uploaded where
    u1: "uploadAllJPEGsToS3 rt Form ?T ?TS ?TL numPages = Some (None, uploaded)" and
    u2: "concat uploaded = concat (map (\<lambda>p. snd (uploadPage rt ?T ?TS ?TL s3JPEGPath
                                   s3SmallJPEGPath s3LargeJPEGPath p)) [1..numPages])"
    by (rule uploadAllJPEGsToS3_events [OF n form none])
  have 1: "convert rt ''POST'' Form = Some (Written (''Done'' @ [NL]), converted @ uploaded)"
    unfolding convert_templates [OF ext conn fetch prefix]
    by (simp only: c1 u1 option.simps sum.simps prod.simps)
  have 2: "concat converted = concat (map (\<lambda>p.
             [Exec ''gs'' [''-dNOPAUSE'', ''-sDEVICE=jpeg'', ''-dFirstPage='' @ itoa p,
                           ''-dLastPage='' @ itoa p,
                           ''-sOutputFile=/tmp/'' @ jpegPrefix @ itoa p @ ''-large.jpg'',
                           ''-dJPEGQ=90'', ''-r200'', ''-q'', pdfPath, ''-c'', ''quit''],
              Exec ''convert'' [''-resize'', ''800x800'',
                                ''/tmp/'' @ jpegPrefix @ itoa p @ ''-large.jpg'',
                                ''/tmp/'' @ jpegPrefix @ itoa p @ ''.jpg''],
              Exec ''convert'' [''-resize'', ''300x300'',
                                ''/tmp/'' @ jpegPrefix @ itoa p @ ''.jpg'',
                                ''/tmp/'' @ jpegPrefix @ itoa p @ ''-small.jpg'']]) [1..numPages])"
    unfolding c2 by (simp only: page snd_conv)
  have 3: "concat uploaded = concat (map (\<lambda>p.
             [PutReader (fmt_Sprintf rt s3JPEGPath [IntArg p]),
              PutReader (fmt_Sprintf rt s3SmallJPEGPath [IntArg p]),
              PutReader (fmt_Sprintf rt s3LargeJPEGPath [IntArg p])]) [1..numPages])"
  proof -
    have "map (\<lambda>p. snd (uploadPage rt ?T ?TS ?TL s3JPEGPath s3SmallJPEGPath s3LargeJPEGPath p))
            [1..numPages]
          = map (\<lambda>p. [PutReader (fmt_Sprintf rt s3JPEGPath [IntArg p]),
                       PutReader (fmt_Sprintf rt s3SmallJPEGPath [IntArg p]),
                       PutReader (fmt_Sprintf rt s3LargeJPEGPath [IntArg p])]) [1..numPages]"
      by (rule map_cong) (simp_all only: up snd_conv set_upto)
    then show ?thesis unfolding u2 by (rule arg_cong)
  qed
  show ?thesis using 1 2 3 by blast
qed

text \<open>The same for the server with a single remote template.\<close>

lemma uploadJPEGRangeToS3_single_templates:
  "uploadJPEGRangeToS3_single rt jpegPath s3JPEGPath firstPage lastPage
     = uploadPages_single rt jpegPath (insert_suffix ''-small'' jpegPath)
         (insert_suffix ''-large'' jpegPath) s3JPEGPath (insert_suffix ''-small'' s3JPEGPath)
         (insert_suffix ''-large'' s3JPEGPath) firstPage lastPage"
  using strings_Replace_insert_suffix [of jpegPath "''-small''"]
    strings_Replace_insert_suffix [of jpegPath "''-large''"]
    strings_Replace_insert_suffix [of s3JPEGPath "''-small''"]
    strings_Replace_insert_suffix [of s3JPEGPath "''-large''"]
  by (simp add: uploadJPEGRangeToS3_single_def Let_def)

lemma convertPagesToJPEGs_single_templates:
  "convertPagesToJPEGs_single rt pdfPath jpegPath firstPage lastPage
     = convertPages_single rt pdfPath jpegPath (insert_suffix ''-small'' jpegPath)
         (insert_suffix ''-large'' jpegPath) firstPage lastPage"
  using strings_Replace_insert_suffix [of jpegPath "''-small''"]
    strings_Replace_insert_suffix [of jpegPath "''-large''"]
  by (simp add: convertPagesToJPEGs_single_def Let_def)

lemma strings_Contains_placeholder: "strings_Contains (pre @ ''%d'' @ post) ''%d''"
proof (induction pre)
  case Nil
  show ?case by simp
next
  case (Cons c pre)
  then show ?case by simp
qed

lemma uploadPages_single_complete:
  assumes "\<And>p. p \<in> {firstPage..lastPage} \<Longrightarrow>
             fst (uploadPage_single rt jpegPath smallJPEGPath largeJPEGPath s3JPEGPath
                    s3SmallJPEGPath s3LargeJPEGPath p) = None"
    and "- (2 ^ 63) \<le> firstPage" "lastPage < 2 ^ 63 - 1"
  shows "uploadPages_single rt jpegPath smallJPEGPath largeJPEGPath s3JPEGPath s3SmallJPEGPath
           s3LargeJPEGPath firstPage lastPage
         = Some (None, concat (map (\<lambda>p. snd (uploadPage_single rt jpegPath smallJPEGPath
                    largeJPEGPath s3JPEGPath s3SmallJPEGPath s3LargeJPEGPath p))
                    [firstPage..lastPage]))"
  using assms
proof (induction "nat (lastPage + 1 - firstPage)" arbitrary: firstPage)
  case 0
  then have "lastPage < firstPage" by simp
  then show ?case by (subst uploadPages_single.simps) simp
next
  case (Suc k)
  then have le: "firstPage \<le> lastPage" by simp
  have page: "fst (uploadPage_single rt jpegPath smallJPEGPath largeJPEGPath s3JPEGPath
                     s3SmallJPEGPath s3LargeJPEGPath firstPage) = None"
    using Suc.prems(1) le by simp
  have w: "wrap64 (firstPage + 1) = firstPage + 1"
    using Suc.prems(2,3) le by (intro wrap64_id) simp_all
  have k: "k = nat (lastPage + 1 - (firstPage + 1))" using Suc.hyps(2) by simp
  have rest: "uploadPages_single rt jpegPath smallJPEGPath largeJPEGPath s3JPEGPath
                s3SmallJPEGPath s3LargeJPEGPath (firstPage + 1) lastPage
              = Some (None, concat (map (\<lambda>p. snd (uploadPage_single rt jpegPath smallJPEGPath
                    largeJPEGPath s3JPEGPath s3SmallJPEGPath s3LargeJPEGPath p))
                    [firstPage + 1..lastPage]))"
    using Suc.prems by (intro Suc.hyps(1) [OF k]) simp_all
  have u: "[firstPage..lastPage] = firstPage # [firstPage + 1..lastPage]"
    using le by (simp add: upto_rec1)
  show ?case
    by (subst uploadPages_single.simps) (simp add: le page w rest u)
qed

lemma convertPages_single_success:
  assumes "\<And>p. p \<in> {firstPage..lastPage} \<Longrightarrow>
             fst (convertPage_single rt pdfPath jpegPath smallJPEGPath largeJPEGPath p)"
    and "- (2 ^ 63) \<le> firstPage" "lastPage < 2 ^ 63 - 1"
  shows "convertPages_single rt pdfPath jpegPath smallJPEGPath largeJPEGPath firstPage lastPage
         = Some (concat (map (\<lambda>p. snd (convertPage_single rt pdfPath jpegPath smallJPEGPath
                                           largeJPEGPath p)) [firstPage..lastPage]))"
  using assms
proof (induction "nat (lastPage + 1 - firstPage)" arbitrary: firstPage)
  case 0
  then have "lastPage < firstPage" by simp
  then show ?case by (subst convertPages_single.simps) simp
next
  case (Suc k)
  then have le: "firstPage \<le> lastPage" by simp
  have page: "fst (convertPage_single rt pdfPath jpegPath smallJPEGPath largeJPEGPath firstPage)"
    using Suc.prems(1) le by simp
  have w: "wrap64 (firstPage + 1) = firstPage + 1"
    using Suc.prems(2,3) le by (intro wrap64_id) simp_all
  have k: "k = nat (lastPage + 1 - (firstPage + 1))" using Suc.hyps(2) by simp
  have rest: "convertPages_single rt pdfPath jpegPath smallJPEGPath largeJPEGPath
                (firstPage + 1) lastPage
              = Some (concat (map (\<lambda>p. snd (convertPage_single rt pdfPath jpegPath smallJPEGPath
                                                largeJPEGPath p)) [firstPage + 1..lastPage]))"
    using Suc.prems by (intro Suc.hyps(1) [OF k]) simp_all
  have u: "[firstPage..lastPage] = firstPage # [firstPage + 1..lastPage]"
    using le by (simp add: upto_rec1)
  show ?case
    by (subst convertPages_single.simps) (simp add: le page w rest u)
qed

lemma convertPDFToJPEGs_single_events:
  assumes "getNumPages rt pdfPath = Inr numPages" "1 \<le> numPages" "numPages < 2 ^ 62"
    and ok: "\<And>p. fst (convertPage_single rt pdfPath jpegPath (insert_suffix ''-small'' jpegPath)
                         (insert_suffix ''-large'' jpegPath) p)"
  obtains converted where
    "convertPDFToJPEGs_single rt pdfPath jpegPath = Some (Inr numPages, converted)"
    "concat converted
       = concat (map (\<lambda>p. snd (convertPage_single rt pdfPath jpegPath
                                   (insert_suffix ''-small'' jpegPath)
                                   (insert_suffix ''-large'' jpegPath) p)) [1..numPages])"
proof -
  define g where "g = (\<lambda>p. snd (convertPage_single rt pdfPath jpegPath
                                    (insert_suffix ''-small'' jpegPath)
                                    (insert_suffix ''-large'' jpegPath) p))"
  have w: "1 \<le> NUM_WORKERS_CONVERT" by (simp add: NUM_WORKERS_CONVERT_def)
  obtain ranges where
    spawn: "spawn_ranges numPages (numPagesPerWorker numPages NUM_WORKERS_CONVERT) 1 = Some ranges"
    and bounds: "\<And>r. r \<in> set ranges \<Longrightarrow> 1 \<le> fst r \<and> snd r \<le> numPages"
    and cover: "concat (map (\<lambda>r. [fst r..snd r]) ranges) = [1..numPages]"
    using spawned_ranges [OF assms(2,3) w] by blast
  have worker: "\<And>r. r \<in> set ranges \<Longrightarrow>
      convertPagesToJPEGs_single rt pdfPath jpegPath (fst r) (snd r)
        = Some (concat (map g [fst r..snd r]))"
  proof -
    fix r assume r: "r \<in> set ranges"
    have b: "1 \<le> fst r" "snd r \<le> numPages" using bounds [OF r] by simp_all
    show "convertPagesToJPEGs_single rt pdfPath jpegPath (fst r) (snd r)
            = Some (concat (map g [fst r..snd r]))"
      unfolding g_def convertPagesToJPEGs_single_templates
    proof (rule convertPages_single_success)
      fix p
      show "fst (convertPage_single rt pdfPath jpegPath (insert_suffix ''-small'' jpegPath)
                   (insert_suffix ''-large'' jpegPath) p)" by (rule ok)
    next
      show "- (2 ^ 63) \<le> fst r" using b(1) by simp
      show "snd r < 2 ^ 63 - 1" using b(2) assms(3) by simp
    qed
  qed
  have those: "those (map (\<lambda>r. convertPagesToJPEGs_single rt pdfPath jpegPath (fst r) (snd r))
                        ranges)
               = Some (map (\<lambda>r. concat (map g [fst r..snd r])) ranges)"
    by (rule those_map_Some) (rule worker)
  have 1: "convertPDFToJPEGs_single rt pdfPath jpegPath
             = Some (Inr numPages, map (\<lambda>r. concat (map g [fst r..snd r])) ranges)"
    using assms(1) spawn those by (simp add: convertPDFToJPEGs_single_def)
  have 2: "concat (map (\<lambda>r. concat (map g [fst r..snd r])) ranges) = concat (map g [1..numPages])"
    by (simp only: concat_ranges cover)
  show ?thesis using that [OF 1] 2 unfolding g_def by blast
qed

lemma uploadAllJPEGsToS3_single_events:
  assumes "1 \<le> numPages" "numPages < 2 ^ 62"
    and "Form ''s3JPEGPath'' = Some [s3JPEGPath]" "strings_Contains s3JPEGPath ''%d''"
    and ok: "\<And>p. p \<in> {1..numPages} \<Longrightarrow>
             fst (uploadPage_single rt jpegPath (insert_suffix ''-small'' jpegPath)
                    (insert_suffix ''-large'' jpegPath) s3JPEGPath
                    (insert_suffix ''-small'' s3JPEGPath) (insert_suffix ''-large'' s3JPEGPath) p)
               = None"
  obtains uploaded where
    "uploadAllJPEGsToS3_single rt Form jpegPath numPages = Some (None, uploaded)"
    "concat uploaded
       = concat (map (\<lambda>p. snd (uploadPage_single rt jpegPath (insert_suffix ''-small'' jpegPath)
                    (insert_suffix ''-large'' jpegPath) s3JPEGPath
                    (insert_suffix ''-small'' s3JPEGPath) (insert_suffix ''-large'' s3JPEGPath) p))
                   [1..numPages])"
proof -
  define g where "g = (\<lambda>p. snd (uploadPage_single rt jpegPath (insert_suffix ''-small'' jpegPath)
                    (insert_suffix ''-large'' jpegPath) s3JPEGPath
                    (insert_suffix ''-small'' s3JPEGPath) (insert_suffix ''-large'' s3JPEGPath) p))"
  have w: "1 \<le> NUM_WORKERS_UPLOAD" by (simp add: NUM_WORKERS_UPLOAD_def)
  obtain ranges where
    spawn: "spawn_ranges numPages (numPagesPerWorker numPages NUM_WORKERS_UPLOAD) 1 = Some ranges"
    and bounds: "\<And>r. r \<in> set ranges \<Longrightarrow> 1 \<le> fst r \<and> snd r \<le> numPages"
    and cover: "concat (map (\<lambda>r. [fst r..snd r]) ranges) = [1..numPages]"
    using spawned_ranges [OF assms(1,2) w] by blast
  have worker: "\<And>r. r \<in> set ranges \<Longrightarrow>
      uploadJPEGRangeToS3_single rt jpegPath s3JPEGPath (fst r) (snd r)
        = Some (None, concat (map g [fst r..snd r]))"
  proof -
    fix r assume r: "r \<in> set ranges"
    have b: "1 \<le> fst r" "snd r \<le> numPages" using bounds [OF r] by simp_all
    show "uploadJPEGRangeToS3_single rt jpegPath s3JPEGPath (fst r) (snd r)
            = Some (None, concat (map g [fst r..snd r]))"
      unfolding g_def uploadJPEGRangeToS3_single_templates
    proof (rule uploadPages_single_complete)
      fix p assume "p \<in> {fst r..snd r}"
      then have "p \<in> {1..numPages}" using b by simp
      then show "fst (uploadPage_single rt jpegPath (insert_suffix ''-small'' jpegPath)
                    (insert_suffix ''-large'' jpegPath) s3JPEGPath
                    (insert_suffix ''-small'' s3JPEGPath) (insert_suffix ''-large'' s3JPEGPath) p)
               = None" by (rule ok)
    next
      show "- (2 ^ 63) \<le> fst r" using b(1) by simp
      show "snd r < 2 ^ 63 - 1" using b(2) assms(2) by simp
    qed
  qed
  have those: "those (map (\<lambda>r. uploadJPEGRangeToS3_single rt jpegPath s3JPEGPath (fst r) (snd r))
                        ranges)
               = Some (map (\<lambda>r. (None, concat (map g [fst r..snd r]))) ranges)"
    by (rule those_map_Some) (rule worker)
  have 1: "uploadAllJPEGsToS3_single rt Form jpegPath numPages
             = Some (None, map (\<lambda>r. concat (map g [fst r..snd r])) ranges)"
    using assms(3,4) spawn those by (simp add: uploadAllJPEGsToS3_single_def comp_def)
  have 2: "concat (map (\<lambda>r. concat (map g [fst r..snd r])) ranges) = concat (map g [1..numPages])"
    by (simp only: concat_ranges cover)
  show ?thesis using that [OF 1] 2 unfolding g_def by blast
qed

lemma local_variant_templates:
  assumes "CHR ''%'' \<notin> set jpegPrefix"
  shows "insert_suffix ''-small'' (''/tmp/'' @ jpegPrefix @ ''%d.jpg'')
           = ''/tmp/'' @ jpegPrefix @ ''%d-small.jpg''"
    and "insert_suffix ''-large'' (''/tmp/'' @ jpegPrefix @ ''%d.jpg'')
           = ''/tmp/'' @ jpegPrefix @ ''%d-large.jpg''"
proof -
  have pre: "CHR ''%'' \<notin> set (''/tmp/'' @ jpegPrefix)" using assms by simp
  show "insert_suffix ''-small'' (''/tmp/'' @ jpegPrefix @ ''%d.jpg'')
           = ''/tmp/'' @ jpegPrefix @ ''%d-small.jpg''"
    using insert_suffix_first [OF pre, of "''-small''" "''.jpg''"] by simp
  show "insert_suffix ''-large'' (''/tmp/'' @ jpegPrefix @ ''%d.jpg'')
           = ''/tmp/'' @ jpegPrefix @ ''%d-large.jpg''"
    using insert_suffix_first [OF pre, of "''-large''" "''.jpg''"] by simp
qed

lemma convertPage_single_commands:
  assumes ext: "extends_Sprintf (fmt_Sprintf rt)"
    and run: "\<forall>name args. cmd_Run rt name args = None"
    and np: "CHR ''%'' \<notin> set jpegPrefix"
  shows "convertPage_single rt pdfPath (''/tmp/'' @ jpegPrefix @ ''%d.jpg'')
           (insert_suffix ''-small'' (''/tmp/'' @ jpegPrefix @ ''%d.jpg''))
           (insert_suffix ''-large'' (''/tmp/'' @ jpegPrefix @ ''%d.jpg'')) p
         = (True,
            [Exec ''gs'' [''-dNOPAUSE'', ''-sDEVICE=jpeg'', ''-dFirstPage='' @ itoa p,
                          ''-dLastPage='' @ itoa p,
                          ''-sOutputFile=/tmp/'' @ jpegPrefix @ itoa p @ ''-large.jpg'',
                          ''-dJPEGQ=90'', ''-r300'', ''-q'', pdfPath, ''-c'', ''quit''],
             Exec ''epeg'' [''-m'', ''800'', ''/tmp/'' @ jpegPrefix @ itoa p @ ''-large.jpg'',
                            ''/tmp/'' @ jpegPrefix @ itoa p @ ''.jpg''],
             Exec ''epeg'' [''-m'', ''300'', ''/tmp/'' @ jpegPrefix @ itoa p @ ''-large.jpg'',
                            ''/tmp/'' @ jpegPrefix @ itoa p @ ''-small.jpg'']])"
proof -
  have pre: "CHR ''%'' \<notin> set (''/tmp/'' @ jpegPrefix)" using np by simp
  have n: "fmt_Sprintf rt (''/tmp/'' @ jpegPrefix @ ''%d.jpg'') [IntArg p]
             = ''/tmp/'' @ jpegPrefix @ itoa p @ ''.jpg''"
    using page_path [OF ext pre, of "''.jpg''" p] by simp
  have s: "fmt_Sprintf rt (''/tmp/'' @ jpegPrefix @ ''%d-small.jpg'') [IntArg p]
             = ''/tmp/'' @ jpegPrefix @ itoa p @ ''-small.jpg''"
    using page_path [OF ext pre, of "''-small.jpg''" p] by simp
  have l: "fmt_Sprintf rt (''/tmp/'' @ jpegPrefix @ ''%d-large.jpg'') [IntArg p]
             = ''/tmp/'' @ jpegPrefix @ itoa p @ ''-large.jpg''"
    using page_path [OF ext pre, of "''-large.jpg''" p] by simp
  show ?thesis
    unfolding local_variant_templates [OF np] convertPage_single_def gs_args_single_def n s l
    by (simp add: Let_def run command_options [OF ext])
qed

lemma uploadPage_single_writes:
  assumes ext: "extends_Sprintf (fmt_Sprintf rt)"
    and np: "CHR ''%'' \<notin> set jpegPrefix"
    and pp: "CHR ''%'' \<notin> set pre" "CHR ''%'' \<notin> set post"
    and opens: "\<forall>variant\<in>{''.jpg'', ''-small.jpg'', ''-large.jpg''}.
             os_Open rt (''/tmp/'' @ jpegPrefix @ itoa p @ variant) = None \<and>
             file_Stat rt (''/tmp/'' @ jpegPrefix @ itoa p @ variant) = None"
    and puts: "\<forall>variant\<in>{''-small'', [], ''-large''}.
             bucket_PutReader rt (pre @ itoa p @ variant @ post) = None"
  shows "uploadPage_single rt (''/tmp/'' @ jpegPrefix @ ''%d.jpg'')
           (insert_suffix ''-small'' (''/tmp/'' @ jpegPrefix @ ''%d.jpg''))
           (insert_suffix ''-large'' (''/tmp/'' @ jpegPrefix @ ''%d.jpg''))
           (pre @ ''%d'' @ post) (insert_suffix ''-small'' (pre @ ''%d'' @ post))
           (insert_suffix ''-large'' (pre @ ''%d'' @ post)) p
         = (None, [PutReader (pre @ itoa p @ ''-small'' @ post),
                   PutReader (pre @ itoa p @ post),
                   PutReader (pre @ itoa p @ ''-large'' @ post)])"
proof -
  have tmp: "CHR ''%'' \<notin> set (''/tmp/'' @ jpegPrefix)" using np by simp
  have n: "fmt_Sprintf rt (''/tmp/'' @ jpegPrefix @ ''%d.jpg'') [IntArg p]
             = ''/tmp/'' @ jpegPrefix @ itoa p @ ''.jpg''"
    using page_path [OF ext tmp, of "''.jpg''" p] by simp
  have s: "fmt_Sprintf rt (''/tmp/'' @ jpegPrefix @ ''%d-small.jpg'') [IntArg p]
             = ''/tmp/'' @ jpegPrefix @ itoa p @ ''-small.jpg''"
    using page_path [OF ext tmp, of "''-small.jpg''" p] by simp
  have l: "fmt_Sprintf rt (''/tmp/'' @ jpegPrefix @ ''%d-large.jpg'') [IntArg p]
             = ''/tmp/'' @ jpegPrefix @ itoa p @ ''-large.jpg''"
    using page_path [OF ext tmp, of "''-large.jpg''" p] by simp
  have rs: "insert_suffix ''-small'' (pre @ ''%d'' @ post) = pre @ ''%d'' @ (''-small'' @ post)"
    and rl: "insert_suffix ''-large'' (pre @ ''%d'' @ post) = pre @ ''%d'' @ (''-large'' @ post)"
    using insert_suffix_first [OF pp(1), of _ post] by simp_all
  have q: "CHR ''%'' \<notin> set (''-small'' @ post)" "CHR ''%'' \<notin> set (''-large'' @ post)"
    using pp(2) by simp_all
  have rn: "fmt_Sprintf rt (pre @ ''%d'' @ post) [IntArg p] = pre @ itoa p @ post"
    by (rule page_path [OF ext pp])
  have rsp: "fmt_Sprintf rt (pre @ ''%d'' @ (''-small'' @ post)) [IntArg p]
               = pre @ itoa p @ ''-small'' @ post"
    by (rule page_path [OF ext pp(1) q(1)])
  have rlp: "fmt_Sprintf rt (pre @ ''%d'' @ (''-large'' @ post)) [IntArg p]
               = pre @ itoa p @ ''-large'' @ post"
    by (rule page_path [OF ext pp(1) q(2)])
  have o: "os_Open rt (''/tmp/'' @ jpegPrefix @ itoa p @ ''.jpg'') = None"
    "file_Stat rt (''/tmp/'' @ jpegPrefix @ itoa p @ ''.jpg'') = None"
    "os_Open rt (''/tmp/'' @ jpegPrefix @ itoa p @ ''-small.jpg'') = None"
    "file_Stat rt (''/tmp/'' @ jpegPrefix @ itoa p @ ''-small.jpg'') = None"
    "os_Open rt (''/tmp/'' @ jpegPrefix @ itoa p @ ''-large.jpg'') = None"
    "file_Stat rt (''/tmp/'' @ jpegPrefix @ itoa p @ ''-large.jpg'') = None"
    using opens by simp_all
  have b: "bucket_PutReader rt (pre @ itoa p @ ''-small'' @ post) = None"
    "bucket_PutReader rt (pre @ itoa p @ post) = None"
    "bucket_PutReader rt (pre @ itoa p @ ''-large'' @ post) = None"
    using puts by simp_all
  show ?thesis
    unfolding local_variant_templates [OF np] rs rl uploadPage_single_def uploadJPEGToS3_def
      Let_def n s l rn rsp rlp o b
    by (simp only: option.simps prod.simps append.simps)
qed

lemma convert_single_run:
  assumes ext: "extends_Sprintf (fmt_Sprintf rt)"
    and conn: "connectToS3 rt = None"
    and fetch: "fetchPDF rt Form = Inr pdfPath"
    and prefix: "jpegPrefix = generateRandomString rt 1 50"
    and count: "getNumPages rt pdfPath = Inr numPages"
    and n: "1 \<le> numPages" "numPages < 2 ^ 62"
    and form: "Form ''s3JPEGPath'' = Some [pre @ ''%d'' @ post]"
    and pp: "CHR ''%'' \<notin> set pre" "CHR ''%'' \<notin> set post"
    and run: "\<forall>name args. cmd_Run rt name args = None"
    and opens: "\<forall>p\<in>{1..numPages}. \<forall>variant\<in>{''.jpg'', ''-small.jpg'', ''-large.jpg''}.
             os_Open rt (''/tmp/'' @ jpegPrefix @ itoa p @ variant) = None \<and>
             file_Stat rt (''/tmp/'' @ jpegPrefix @ itoa p @ variant) = None"
    and puts: "\<forall>p\<in>{1..numPages}. \<forall>variant\<in>{''-small'', [], ''-large''}.
             bucket_PutReader rt (pre @ itoa p @ variant @ post) = None"
  shows "\<exists>converted uploaded.
           convert_single rt ''POST'' Form
             = Some (Written (''Done'' @ [NL]), converted @ uploaded) \<and>
           concat converted = concat (map (\<lambda>p.
             [Exec ''gs'' [''-dNOPAUSE'', ''-sDEVICE=jpeg'', ''-dFirstPage='' @ itoa p,
                           ''-dLastPage='' @ itoa p,
                           ''-sOutputFile=/tmp/'' @ jpegPrefix @ itoa p @ ''-large.jpg'',
                           ''-dJPEGQ=90'', ''-r300'', ''-q'', pdfPath, ''-c'', ''quit''],
              Exec ''epeg'' [''-m'', ''800'', ''/tmp/'' @ jpegPrefix @ itoa p @ ''-large.jpg'',
                             ''/tmp/'' @ jpegPrefix @ itoa p @ ''.jpg''],
              Exec ''epeg'' [''-m'', ''300'', ''/tmp/'' @ jpegPrefix @ itoa p @ ''-large.jpg'',
                             ''/tmp/'' @ jpegPrefix @ itoa p @ ''-small.jpg'']]) [1..numPages]) \<and>
           concat uploaded = concat (map (\<lambda>p.
             [PutReader (pre @ itoa p @ ''-small'' @ post),
              PutReader (pre @ itoa p @ post),
              PutReader (pre @ itoa p @ ''-large'' @ post)]) [1..numPages])"
proof -
  let ?T = "''/tmp/'' @ jpegPrefix @ ''%d.jpg''"
  let ?R = "pre @ ''%d'' @ post"
  have np: "CHR ''%'' \<notin> set jpegPrefix" unfolding prefix by (rule generateRandomString_no_percent)
  note page = convertPage_single_commands [OF ext run np, of pdfPath]
  have ok: "\<And>p. fst (convertPage_single rt pdfPath ?T (insert_suffix ''-small'' ?T)
                         (insert_suffix ''-large'' ?T) p)"
    by (simp only: page fst_conv)
  obtain converted where
    c1: "convertPDFToJPEGs_single rt pdfPath ?T = Some (Inr numPages, converted)" and
    c2: "concat converted
           = concat (map (\<lambda>p. snd (convertPage_single rt pdfPath ?T (insert_suffix ''-small'' ?T)
                                       (insert_suffix ''-large'' ?T) p)) [1..numPages])"
    by (rule convertPDFToJPEGs_single_events [OF count n ok])
  have up: "\<And>p. p \<in> {1..numPages} \<Longrightarrow>
      uploadPage_single rt ?T (insert_suffix ''-small'' ?T) (insert_suffix ''-large'' ?T)
          ?R (insert_suffix ''-small'' ?R) (insert_suffix ''-large'' ?R) p
        = (None, [PutReader (pre @ itoa p @ ''-small'' @ post),
                  PutReader (pre @ itoa p @ post),
                  PutReader (pre @ itoa p @ ''-large'' @ post)])"
  proof -
    fix p assume p: "p \<in> {1..numPages}"
    show "uploadPage_single rt ?T (insert_suffix ''-small'' ?T) (insert_suffix ''-large'' ?T)
          ?R (insert_suffix ''-small'' ?R) (insert_suffix ''-large'' ?R) p
        = (None, [PutReader (pre @ itoa p @ ''-small'' @ post),
                  PutReader (pre @ itoa p @ post),
                  PutReader (pre @ itoa p @ ''-large'' @ post)])"
      by (rule uploadPage_single_writes [OF ext np pp bspec [OF opens p] bspec [OF puts p]])
  qed
  have none: "\<And>p. p \<in> {1..numPages} \<Longrightarrow>
      fst (uploadPage_single rt ?T (insert_suffix ''-small'' ?T) (insert_suffix ''-large'' ?T)
             ?R (insert_suffix ''-small'' ?R) (insert_suffix ''-large'' ?R) p) = None"
    by (simp only: up fst_conv)
  obtain uploaded where
    u1: "uploadAllJPEGsToS3_single rt Form ?T numPages = Some (None, uploaded)" and
    u2: "concat uploaded
           = concat (map (\<lambda>p. snd (uploadPage_single rt ?T (insert_suffix ''-small'' ?T)
                      (insert_suffix ''-large'' ?T) ?R (insert_suffix ''-small'' ?R)
                      (insert_suffix ''-large'' ?R) p)) [1..numPages])"
    by (rule uploadAllJPEGsToS3_single_events
          [where rt = rt and jpegPath = ?T and s3JPEGPath = ?R and Form = Form
             and numPages = numPages,
           OF n form strings_Contains_placeholder none])
  have t: "fmt_Sprintf rt ''/tmp/%s%%d.jpg'' [StrArg (generateRandomString rt 1 50)] = ?T"
    unfolding prefix by (rule local_templates(1) [OF ext])
  have 1: "convert_single rt ''POST'' Form = Some (Written (''Done'' @ [NL]), converted @ uploaded)"
    unfolding convert_single_def Let_def t
    by (simp only: conn fetch c1 u1 option.simps sum.simps prod.simps simp_thms if_False)
  have 2: "concat converted = concat (map (\<lambda>p.
             [Exec ''gs'' [''-dNOPAUSE'', ''-sDEVICE=jpeg'', ''-dFirstPage='' @ itoa p,
                           ''-dLastPage='' @ itoa p,
                           ''-sOutputFile=/tmp/'' @ jpegPrefix @ itoa p @ ''-large.jpg'',
                           ''-dJPEGQ=90'', ''-r300'', ''-q'', pdfPath, ''-c'', ''quit''],
              Exec ''epeg'' [''-m'', ''800'', ''/tmp/'' @ jpegPrefix @ itoa p @ ''-large.jpg'',
                             ''/tmp/'' @ jpegPrefix @ itoa p @ ''.jpg''],
              Exec ''epeg'' [''-m'', ''300'', ''/tmp/'' @ jpegPrefix @ itoa p @ ''-large.jpg'',
                             ''/tmp/'' @ jpegPrefix @ itoa p @ ''-small.jpg'']]) [1..numPages])"
    unfolding c2 by (simp only: page snd_conv)
  have 3: "concat uploaded = concat (map (\<lambda>p.
             [PutReader (pre @ itoa p @ ''-small'' @ post),
              PutReader (pre @ itoa p @ post),
              PutReader (pre @ itoa p @ ''-large'' @ post)]) [1..numPages])"
  proof -
    have "map (\<lambda>p. snd (uploadPage_single rt ?T (insert_suffix ''-small'' ?T)
                      (insert_suffix ''-large'' ?T) ?R (insert_suffix ''-small'' ?R)
                      (insert_suffix ''-large'' ?R) p)) [1..numPages]
          = map (\<lambda>p. [PutReader (pre @ itoa p @ ''-small'' @ post),
                       PutReader (pre @ itoa p @ post),
                       PutReader (pre @ itoa p @ ''-large'' @ post)]) [1..numPages]"
      by (rule map_cong) (simp_all only: up snd_conv set_upto)
    then show ?thesis unfolding u2 by (rule arg_cong)
  qed
  show ?thesis using 1 2 3 by blast
qed

lemma extends_Sprintf_or_empty: "extends_Sprintf Sprintf_or_empty"
  by (simp add: extends_Sprintf_def Sprintf_or_empty_def)

text \<open>
  C6, as the specification states it, does not hold for the remote store targets of
  \<^verbatim>\<open>server.go\<close>: the small and the large remote template are the form fields
  \<^verbatim>\<open>s3SmallJPEGPath\<close> and \<^verbatim>\<open>s3LargeJPEGPath\<close>, used as the caller supplied them. With
  the normal template \<^verbatim>\<open>page%d.jpg\<close> and the other two fields set to
  \<^verbatim>\<open>thumbs/%d.jpg\<close> and \<^verbatim>\<open>big/%d.jpg\<close>, page 1 is stored under \<^verbatim>\<open>thumbs/1.jpg\<close> and
  \<^verbatim>\<open>big/1.jpg\<close>, not under the paths that inserting the suffixes into the normal
  template gives.
\<close>

theorem remote_variant_templates_counterexample:
  "demo_form ''s3JPEGPath'' = Some [''page%d.jpg''] \<and>
   uploadAllJPEGsToS3 (quiet_runtime []) demo_form ''/tmp/x%d.jpg'' ''/tmp/x%d-small.jpg''
       ''/tmp/x%d-large.jpg'' 1
     = Some (None, [ [PutReader ''page1.jpg'', PutReader ''thumbs/1.jpg'', PutReader ''big/1.jpg''] ]) \<and>
   Sprintf (insert_suffix ''-small'' ''page%d.jpg'') [IntArg 1] = Some ''page1-small.jpg'' \<and>
   Sprintf (insert_suffix ''-large'' ''page%d.jpg'') [IntArg 1] = Some ''page1-large.jpg''"
  by code_simp

text \<open>
  C6, amended. Take a request that reaches the conversion, with local prefix \<open>jpegPrefix\<close>,
  the random alphanumeric string the handler draws.

  \<^item> The handler \<^verbatim>\<open>convert\<close> of \<^verbatim>\<open>server.go\<close> runs both coordinators on the local
    templates \<^verbatim>\<open>/tmp/<prefix>%d.jpg\<close>, \<^verbatim>\<open>/tmp/<prefix>%d-small.jpg\<close> and
    \<^verbatim>\<open>/tmp/<prefix>%d-large.jpg\<close>, in this order: the literal suffix follows the
    placeholder.

  \<^item> When the document has \<open>N\<close> pages, \<open>1 \<le> N < 2\<^sup>6\<^sup>2\<close>, every command succeeds, the
    files \<^verbatim>\<open>/tmp/<prefix>n.jpg\<close>, \<^verbatim>\<open>/tmp/<prefix>n-small.jpg\<close> and
    \<^verbatim>\<open>/tmp/<prefix>n-large.jpg\<close> of every page \<open>n\<close> open and the store writes succeed, the
    request is answered with \<^verbatim>\<open>Done\<close>; the conversion workers have, for each page \<open>n\<close>
    from 1 to \<open>N\<close>, rendered it to \<^verbatim>\<open>/tmp/<prefix>n-large.jpg\<close> and resized that file to
    \<^verbatim>\<open>/tmp/<prefix>n.jpg\<close> and the latter to \<^verbatim>\<open>/tmp/<prefix>n-small.jpg\<close>; and the
    upload workers have stored each page under the three form fields \<^verbatim>\<open>s3JPEGPath\<close>,
    \<^verbatim>\<open>s3SmallJPEGPath\<close> and \<^verbatim>\<open>s3LargeJPEGPath\<close> of the request, as the caller supplied
    them, with the page number substituted: the remote small and large templates are not
    derived.

  \<^item> In the copy of the server with a single remote template, under the same conditions
    and with the form field \<^verbatim>\<open>s3JPEGPath\<close> set to \<^verbatim>\<open>pre%dpost\<close>, the workers use the
    same three local files and store page \<open>n\<close> under \<^verbatim>\<open>pren-smallpost\<close>, \<^verbatim>\<open>prenpost\<close>
    and \<^verbatim>\<open>pren-largepost\<close>. Its workers take every variant template, local and remote,
    from the template they are given by replacing its first \<^verbatim>\<open>%d\<close> by \<^verbatim>\<open>%d-small\<close> or
    \<^verbatim>\<open>%d-large\<close>, which inserts the suffix right after the placeholder: \<^verbatim>\<open>page%d.jpg\<close>
    yields \<^verbatim>\<open>page%d-small.jpg\<close> and \<^verbatim>\<open>page%d-large.jpg\<close>, and page 3 is stored under
    \<^verbatim>\<open>page3-small.jpg\<close>, \<^verbatim>\<open>page3.jpg\<close> and \<^verbatim>\<open>page3-large.jpg\<close>.
\<close>

theorem variant_templates:
  "(extends_Sprintf (fmt_Sprintf rt) \<and> connectToS3 rt = None \<and> fetchPDF rt Form = Inr pdfPath \<and>
    jpegPrefix = generateRandomString rt 1 50 \<longrightarrow>
      convert rt ''POST'' Form =
        (case convertPDFToJPEGs rt pdfPath (''/tmp/'' @ jpegPrefix @ ''%d.jpg'')
                (''/tmp/'' @ jpegPrefix @ ''%d-small.jpg'')
                (''/tmp/'' @ jpegPrefix @ ''%d-large.jpg'') of
           None \<Rightarrow> None
         | Some (Inl err, converted) \<Rightarrow> Some (InternalServerError err, converted)
         | Some (Inr numPages, converted) \<Rightarrow>
             (case uploadAllJPEGsToS3 rt Form (''/tmp/'' @ jpegPrefix @ ''%d.jpg'')
                     (''/tmp/'' @ jpegPrefix @ ''%d-small.jpg'')
                     (''/tmp/'' @ jpegPrefix @ ''%d-large.jpg'') numPages of
                None \<Rightarrow> None
              | Some (Some err, uploaded) \<Rightarrow> Some (InternalServerError err, converted @ uploaded)
              | Some (None, uploaded) \<Rightarrow>
                  Some (Written (''Done'' @ [NL]), converted @ uploaded))) \<and>
      (getNumPages rt pdfPath = Inr numPages \<and> 1 \<le> numPages \<and> numPages < 2 ^ 62 \<and>
       (\<forall>name args. cmd_Run rt name args = None) \<and>
       (\<forall>p\<in>{1..numPages}. \<forall>variant\<in>{''.jpg'', ''-small.jpg'', ''-large.jpg''}.
          os_Open rt (''/tmp/'' @ jpegPrefix @ itoa p @ variant) = None \<and>
          file_Stat rt (''/tmp/'' @ jpegPrefix @ itoa p @ variant) = None) \<longrightarrow>
         (Form ''s3JPEGPath'' = Some [s3JPEGPath] \<and>
          Form ''s3SmallJPEGPath'' = Some [s3SmallJPEGPath] \<and>
          Form ''s3LargeJPEGPath'' = Some [s3LargeJPEGPath] \<and>
          strings_Contains s3JPEGPath ''%d'' \<and> strings_Contains s3SmallJPEGPath ''%d'' \<and>
          strings_Contains s3LargeJPEGPath ''%d'' \<and>
          (\<forall>p\<in>{1..numPages}. \<forall>remote\<in>{s3JPEGPath, s3SmallJPEGPath, s3LargeJPEGPath}.
             bucket_PutReader rt (fmt_Sprintf rt remote [IntArg p]) = None) \<longrightarrow>
            (\<exists>converted uploaded.
               convert rt ''POST'' Form
                 = Some (Written (''Done'' @ [NL]), converted @ uploaded) \<and>
               concat converted = concat (map (\<lambda>p.
                 [Exec ''gs'' [''-dNOPAUSE'', ''-sDEVICE=jpeg'', ''-dFirstPage='' @ itoa p,
                               ''-dLastPage='' @ itoa p,
                               ''-sOutputFile=/tmp/'' @ jpegPrefix @ itoa p @ ''-large.jpg'',
                               ''-dJPEGQ=90'', ''-r200'', ''-q'', pdfPath, ''-c'', ''quit''],
                  Exec ''convert'' [''-resize'', ''800x800'',
                                    ''/tmp/'' @ jpegPrefix @ itoa p @ ''-large.jpg'',
                                    ''/tmp/'' @ jpegPrefix @ itoa p @ ''.jpg''],
                  Exec ''convert'' [''-resize'', ''300x300'',
                                    ''/tmp/'' @ jpegPrefix @ itoa p @ ''.jpg'',
                                    ''/tmp/'' @ jpegPrefix @ itoa p @ ''-small.jpg'']])
                 [1..numPages]) \<and>
               concat uploaded = concat (map (\<lambda>p.
                 [PutReader (fmt_Sprintf rt s3JPEGPath [IntArg p]),
                  PutReader (fmt_Sprintf rt s3SmallJPEGPath [IntArg p]),
                  PutReader (fmt_Sprintf rt s3LargeJPEGPath [IntArg p])]) [1..numPages]))) \<and>
         (Form ''s3JPEGPath'' = Some [pre @ ''%d'' @ post] \<and>
          CHR ''%'' \<notin> set pre \<and> CHR ''%'' \<notin> set post \<and>
          (\<forall>p\<in>{1..numPages}. \<forall>variant\<in>{''-small'', [], ''-large''}.
             bucket_PutReader rt (pre @ itoa p @ variant @ post) = None) \<longrightarrow>
            (\<exists>converted uploaded.
               convert_single rt ''POST'' Form
                 = Some (Written (''Done'' @ [NL]), converted @ uploaded) \<and>
               concat converted = concat (map (\<lambda>p.
                 [Exec ''gs'' [''-dNOPAUSE'', ''-sDEVICE=jpeg'', ''-dFirstPage='' @ itoa p,
                               ''-dLastPage='' @ itoa p,
                               ''-sOutputFile=/tmp/'' @ jpegPrefix @ itoa p @ ''-large.jpg'',
                               ''-dJPEGQ=90'', ''-r300'', ''-q'', pdfPath, ''-c'', ''quit''],
                  Exec ''epeg'' [''-m'', ''800'', ''/tmp/'' @ jpegPrefix @ itoa p @ ''-large.jpg'',
                                 ''/tmp/'' @ jpegPrefix @ itoa p @ ''.jpg''],
                  Exec ''epeg'' [''-m'', ''300'', ''/tmp/'' @ jpegPrefix @ itoa p @ ''-large.jpg'',
                                 ''/tmp/'' @ jpegPrefix @ itoa p @ ''-small.jpg'']])
                 [1..numPages]) \<and>
               concat uploaded = concat (map (\<lambda>p.
                 [PutReader (pre @ itoa p @ ''-small'' @ post),
                  PutReader (pre @ itoa p @ post),
                  PutReader (pre @ itoa p @ ''-large'' @ post)]) [1..numPages]))))) \<and>
   uploadJPEGRangeToS3_single rt jpegPath s3Path firstPage lastPage
     = uploadPages_single rt jpegPath (insert_suffix ''-small'' jpegPath)
         (insert_suffix ''-large'' jpegPath) s3Path (insert_suffix ''-small'' s3Path)
         (insert_suffix ''-large'' s3Path) firstPage lastPage \<and>
   convertPagesToJPEGs_single rt pdfPath jpegPath firstPage lastPage
     = convertPages_single rt pdfPath jpegPath (insert_suffix ''-small'' jpegPath)
         (insert_suffix ''-large'' jpegPath) firstPage lastPage \<and>
   (CHR ''%'' \<notin> set pre \<longrightarrow>
      insert_suffix lit (pre @ ''%d'' @ post) = pre @ ''%d'' @ lit @ post) \<and>
   insert_suffix ''-small'' ''page%d.jpg'' = ''page%d-small.jpg'' \<and>
   insert_suffix ''-large'' ''page%d.jpg'' = ''page%d-large.jpg'' \<and>
   uploadJPEGRangeToS3_single (quiet_runtime []) ''/tmp/x%d.jpg'' ''page%d.jpg'' 3 3
     = Some (None, [PutReader ''page3-small.jpg'', PutReader ''page3.jpg'',
                    PutReader ''page3-large.jpg''])"
proof (intro conjI impI)
  assume a: "extends_Sprintf (fmt_Sprintf rt) \<and> connectToS3 rt = None \<and>
    fetchPDF rt Form = Inr pdfPath \<and> jpegPrefix = generateRandomString rt 1 50"
  have ext: "extends_Sprintf (fmt_Sprintf rt)" using a by (elim conjE)
  have conn: "connectToS3 rt = None" using a by (elim conjE)
  have fetch: "fetchPDF rt Form = Inr pdfPath" using a by (elim conjE)
  have prefix: "jpegPrefix = generateRandomString rt 1 50" using a by (elim conjE)
  show "convert rt ''POST'' Form =
        (case convertPDFToJPEGs rt pdfPath (''/tmp/'' @ jpegPrefix @ ''%d.jpg'')
                (''/tmp/'' @ jpegPrefix @ ''%d-small.jpg'')
                (''/tmp/'' @ jpegPrefix @ ''%d-large.jpg'') of
           None \<Rightarrow> None
         | Some (Inl err, converted) \<Rightarrow> Some (InternalServerError err, converted)
         | Some (Inr numPages, converted) \<Rightarrow>
             (case uploadAllJPEGsToS3 rt Form (''/tmp/'' @ jpegPrefix @ ''%d.jpg'')
                     (''/tmp/'' @ jpegPrefix @ ''%d-small.jpg'')
                     (''/tmp/'' @ jpegPrefix @ ''%d-large.jpg'') numPages of
                None \<Rightarrow> None
              | Some (Some err, uploaded) \<Rightarrow> Some (InternalServerError err, converted @ uploaded)
              | Some (None, uploaded) \<Rightarrow>
                  Some (Written (''Done'' @ [NL]), converted @ uploaded)))"
    by (rule convert_templates [OF ext conn fetch prefix])
  assume b: "getNumPages rt pdfPath = Inr numPages \<and> 1 \<le> numPages \<and> numPages < 2 ^ 62 \<and>
       (\<forall>name args. cmd_Run rt name args = None) \<and>
       (\<forall>p\<in>{1..numPages}. \<forall>variant\<in>{''.jpg'', ''-small.jpg'', ''-large.jpg''}.
          os_Open rt (''/tmp/'' @ jpegPrefix @ itoa p @ variant) = None \<and>
          file_Stat rt (''/tmp/'' @ jpegPrefix @ itoa p @ variant) = None)"
  have count: "getNumPages rt pdfPath = Inr numPages" using b by (elim conjE)
  have n: "1 \<le> numPages" "numPages < 2 ^ 62" using b by simp_all
  have run: "\<forall>name args. cmd_Run rt name args = None" using b by (elim conjE)
  have opens: "\<forall>p\<in>{1..numPages}. \<forall>variant\<in>{''.jpg'', ''-small.jpg'', ''-large.jpg''}.
          os_Open rt (''/tmp/'' @ jpegPrefix @ itoa p @ variant) = None \<and>
          file_Stat rt (''/tmp/'' @ jpegPrefix @ itoa p @ variant) = None"
    using b by (elim conjE)
  {
    assume c: "Form ''s3JPEGPath'' = Some [s3JPEGPath] \<and>
          Form ''s3SmallJPEGPath'' = Some [s3SmallJPEGPath] \<and>
          Form ''s3LargeJPEGPath'' = Some [s3LargeJPEGPath] \<and>
          strings_Contains s3JPEGPath ''%d'' \<and> strings_Contains s3SmallJPEGPath ''%d'' \<and>
          strings_Contains s3LargeJPEGPath ''%d'' \<and>
          (\<forall>p\<in>{1..numPages}. \<forall>remote\<in>{s3JPEGPath, s3SmallJPEGPath, s3LargeJPEGPath}.
             bucket_PutReader rt (fmt_Sprintf rt remote [IntArg p]) = None)"
    have form: "Form ''s3JPEGPath'' = Some [s3JPEGPath]"
        "Form ''s3SmallJPEGPath'' = Some [s3SmallJPEGPath]"
        "Form ''s3LargeJPEGPath'' = Some [s3LargeJPEGPath]"
        "strings_Contains s3JPEGPath ''%d''" "strings_Contains s3SmallJPEGPath ''%d''"
        "strings_Contains s3LargeJPEGPath ''%d''"
      using c by simp_all
    have puts: "\<forall>p\<in>{1..numPages}. \<forall>remote\<in>{s3JPEGPath, s3SmallJPEGPath, s3LargeJPEGPath}.
             bucket_PutReader rt (fmt_Sprintf rt remote [IntArg p]) = None"
      using c by (elim conjE)
    show "\<exists>converted uploaded.
               convert rt ''POST'' Form
                 = Some (Written (''Done'' @ [NL]), converted @ uploaded) \<and>
               concat converted = concat (map (\<lambda>p.
                 [Exec ''gs'' [''-dNOPAUSE'', ''-sDEVICE=jpeg'', ''-dFirstPage='' @ itoa p,
                               ''-dLastPage='' @ itoa p,
                               ''-sOutputFile=/tmp/'' @ jpegPrefix @ itoa p @ ''-large.jpg'',
                               ''-dJPEGQ=90'', ''-r200'', ''-q'', pdfPath, ''-c'', ''quit''],
                  Exec ''convert'' [''-resize'', ''800x800'',
                                    ''/tmp/'' @ jpegPrefix @ itoa p @ ''-large.jpg'',
                                    ''/tmp/'' @ jpegPrefix @ itoa p @ ''.jpg''],
                  Exec ''convert'' [''-resize'', ''300x300'',
                                    ''/tmp/'' @ jpegPrefix @ itoa p @ ''.jpg'',
                                    ''/tmp/'' @ jpegPrefix @ itoa p @ ''-small.jpg'']])
                 [1..numPages]) \<and>
               concat uploaded = concat (map (\<lambda>p.
                 [PutReader (fmt_Sprintf rt s3JPEGPath [IntArg p]),
                  PutReader (fmt_Sprintf rt s3SmallJPEGPath [IntArg p]),
                  PutReader (fmt_Sprintf rt s3LargeJPEGPath [IntArg p])]) [1..numPages])"
      by (rule convert_run [OF ext conn fetch prefix count n form run opens puts])
  }
  {
    assume d: "Form ''s3JPEGPath'' = Some [pre @ ''%d'' @ post] \<and>
          CHR ''%'' \<notin> set pre \<and> CHR ''%'' \<notin> set post \<and>
          (\<forall>p\<in>{1..numPages}. \<forall>variant\<in>{''-small'', [], ''-large''}.
             bucket_PutReader rt (pre @ itoa p @ variant @ post) = None)"
    have form: "Form ''s3JPEGPath'' = Some [pre @ ''%d'' @ post]" using d by (elim conjE)
    have pp: "CHR ''%'' \<notin> set pre" "CHR ''%'' \<notin> set post" using d by simp_all
    have puts: "\<forall>p\<in>{1..numPages}. \<forall>variant\<in>{''-small'', [], ''-large''}.
             bucket_PutReader rt (pre @ itoa p @ variant @ post) = None"
      using d by (elim conjE)
    show "\<exists>converted uploaded.
               convert_single rt ''POST'' Form
                 = Some (Written (''Done'' @ [NL]), converted @ uploaded) \<and>
               concat converted = concat (map (\<lambda>p.
                 [Exec ''gs'' [''-dNOPAUSE'', ''-sDEVICE=jpeg'', ''-dFirstPage='' @ itoa p,
                               ''-dLastPage='' @ itoa p,
                               ''-sOutputFile=/tmp/'' @ jpegPrefix @ itoa p @ ''-large.jpg'',
                               ''-dJPEGQ=90'', ''-r300'', ''-q'', pdfPath, ''-c'', ''quit''],
                  Exec ''epeg'' [''-m'', ''800'', ''/tmp/'' @ jpegPrefix @ itoa p @ ''-large.jpg'',
                                 ''/tmp/'' @ jpegPrefix @ itoa p @ ''.jpg''],
                  Exec ''epeg'' [''-m'', ''300'', ''/tmp/'' @ jpegPrefix @ itoa p @ ''-large.jpg'',
                                 ''/tmp/'' @ jpegPrefix @ itoa p @ ''-small.jpg'']])
                 [1..numPages]) \<and>
               concat uploaded = concat (map (\<lambda>p.
                 [PutReader (pre @ itoa p @ ''-small'' @ post),
                  PutReader (pre @ itoa p @ post),
                  PutReader (pre @ itoa p @ ''-large'' @ post)]) [1..numPages])"
      by (rule convert_single_run [OF ext conn fetch prefix count n form pp run opens puts])
  }
next
  show "uploadJPEGRangeToS3_single rt jpegPath s3Path firstPage lastPage
     = uploadPages_single rt jpegPath (insert_suffix ''-small'' jpegPath)
         (insert_suffix ''-large'' jpegPath) s3Path (insert_suffix ''-small'' s3Path)
         (insert_suffix ''-large'' s3Path) firstPage lastPage"
    by (rule uploadJPEGRangeToS3_single_templates)
  show "convertPagesToJPEGs_single rt pdfPath jpegPath firstPage lastPage
     = convertPages_single rt pdfPath jpegPath (insert_suffix ''-small'' jpegPath)
         (insert_suffix ''-large'' jpegPath) firstPage lastPage"
    by (rule convertPagesToJPEGs_single_templates)
next
  assume "CHR ''%'' \<notin> set pre"
  then show "insert_suffix lit (pre @ ''%d'' @ post) = pre @ ''%d'' @ lit @ post"
    by (rule insert_suffix_first)
next
  show "insert_suffix ''-small'' ''page%d.jpg'' = ''page%d-small.jpg''" by code_simp
  show "insert_suffix ''-large'' ''page%d.jpg'' = ''page%d-large.jpg''" by code_simp
  show "uploadJPEGRangeToS3_single (quiet_runtime []) ''/tmp/x%d.jpg'' ''page%d.jpg'' 3 3
     = Some (None, [PutReader ''page3-small.jpg'', PutReader ''page3.jpg'',
                    PutReader ''page3-large.jpg''])" by code_simp
qed

theorem variant_templates_witness:
  "(\<exists>converted uploaded.
      convert (quiet_runtime (''2'' @ [NL])) ''POST'' demo_form
        = Some (Written (''Done'' @ [NL]), converted @ uploaded) \<and>
      concat uploaded
        = map PutReader [''page1.jpg'', ''thumbs/1.jpg'', ''big/1.jpg'',
                         ''page2.jpg'', ''thumbs/2.jpg'', ''big/2.jpg'']) \<and>
   (\<exists>converted uploaded.
      convert_single (quiet_runtime (''2'' @ [NL])) ''POST'' demo_form
        = Some (Written (''Done'' @ [NL]), converted @ uploaded) \<and>
      concat uploaded
        = map PutReader [''page1-small.jpg'', ''page1.jpg'', ''page1-large.jpg'',
                         ''page2-small.jpg'', ''page2.jpg'', ''page2-large.jpg'']) \<and>
   insert_suffix ''-small'' (''page'' @ ''%d'' @ ''.jpg'') = ''page'' @ ''%d'' @ ''-small'' @ ''.jpg''"
proof -
  let ?rt = "quiet_runtime (''2'' @ [NL])"
  define jpegPrefix where "jpegPrefix = generateRandomString ?rt 1 50"
  obtain pdfPath where f: "fetchPDF ?rt demo_form = Inr pdfPath"
    by (simp add: fetchPDF_def quiet_runtime_def demo_form_def Let_def)
  have p: "ParseInt (strings_Trim (''2'' @ [NL]) [NL]) = Inr 2" by code_simp
  have g: "getNumPages ?rt pdfPath = Inr 2" using p by (simp add: getNumPages_def quiet_runtime_def)
  have a: "extends_Sprintf (fmt_Sprintf ?rt) \<and> connectToS3 ?rt = None \<and>
      fetchPDF ?rt demo_form = Inr pdfPath \<and> jpegPrefix = generateRandomString ?rt 1 50"
    using f by (simp add: quiet_runtime_def extends_Sprintf_or_empty connectToS3_def jpegPrefix_def)
  have b: "getNumPages ?rt pdfPath = Inr 2 \<and> (1::int) \<le> 2 \<and> (2::int) < 2 ^ 62 \<and>
       (\<forall>name args. cmd_Run ?rt name args = None) \<and>
       (\<forall>p\<in>{1..2}. \<forall>variant\<in>{''.jpg'', ''-small.jpg'', ''-large.jpg''}.
          os_Open ?rt (''/tmp/'' @ jpegPrefix @ itoa p @ variant) = None \<and>
          file_Stat ?rt (''/tmp/'' @ jpegPrefix @ itoa p @ variant) = None)"
    using g by (simp add: quiet_runtime_def)
  have k: "strings_Contains ''page%d.jpg'' ''%d''" "strings_Contains ''thumbs/%d.jpg'' ''%d''"
    "strings_Contains ''big/%d.jpg'' ''%d''" by code_simp+
  have c: "demo_form ''s3JPEGPath'' = Some [''page%d.jpg''] \<and>
          demo_form ''s3SmallJPEGPath'' = Some [''thumbs/%d.jpg''] \<and>
          demo_form ''s3LargeJPEGPath'' = Some [''big/%d.jpg''] \<and>
          strings_Contains ''page%d.jpg'' ''%d'' \<and> strings_Contains ''thumbs/%d.jpg'' ''%d'' \<and>
          strings_Contains ''big/%d.jpg'' ''%d'' \<and>
          (\<forall>p\<in>{1..2}. \<forall>remote\<in>{''page%d.jpg'', ''thumbs/%d.jpg'', ''big/%d.jpg''}.
             bucket_PutReader ?rt (fmt_Sprintf ?rt remote [IntArg p]) = None)"
    using k by (simp add: demo_form_def quiet_runtime_def)
  have d: "demo_form ''s3JPEGPath'' = Some [''page'' @ ''%d'' @ ''.jpg''] \<and>
          CHR ''%'' \<notin> set ''page'' \<and> CHR ''%'' \<notin> set ''.jpg'' \<and>
          (\<forall>p\<in>{1..2}. \<forall>variant\<in>{''-small'', [], ''-large''}.
             bucket_PutReader ?rt (''page'' @ itoa p @ variant @ ''.jpg'') = None)"
    by (simp add: demo_form_def quiet_runtime_def)
  note t = variant_templates [where rt = ?rt and Form = demo_form and pdfPath = pdfPath
      and jpegPrefix = jpegPrefix and numPages = 2 and ?s3JPEGPath = "''page%d.jpg''"
      and s3SmallJPEGPath = "''thumbs/%d.jpg''" and s3LargeJPEGPath = "''big/%d.jpg''"
      and pre = "''page''" and post = "''.jpg''" and lit = "''-small''"]
  note runs = t [THEN conjunct1, THEN mp, OF a, THEN conjunct2, THEN mp, OF b]
  have e1: "concat (map (\<lambda>p. [PutReader (fmt_Sprintf ?rt ''page%d.jpg'' [IntArg p]),
                                PutReader (fmt_Sprintf ?rt ''thumbs/%d.jpg'' [IntArg p]),
                                PutReader (fmt_Sprintf ?rt ''big/%d.jpg'' [IntArg p])]) [1..2])
            = map PutReader [''page1.jpg'', ''thumbs/1.jpg'', ''big/1.jpg'',
                             ''page2.jpg'', ''thumbs/2.jpg'', ''big/2.jpg'']"
    by code_simp
  have e2: "concat (map (\<lambda>p. [PutReader (''page'' @ itoa p @ ''-small'' @ ''.jpg''),
                                PutReader (''page'' @ itoa p @ ''.jpg''),
                                PutReader (''page'' @ itoa p @ ''-large'' @ ''.jpg'')]) [1..2])
            = map PutReader [''page1-small.jpg'', ''page1.jpg'', ''page1-large.jpg'',
                             ''page2-small.jpg'', ''page2.jpg'', ''page2-large.jpg'']"
    by code_simp
  obtain converted uploaded where
    "convert ?rt ''POST'' demo_form = Some (Written (''Done'' @ [NL]), converted @ uploaded)"
    "concat uploaded = map PutReader [''page1.jpg'', ''thumbs/1.jpg'', ''big/1.jpg'',
                                      ''page2.jpg'', ''thumbs/2.jpg'', ''big/2.jpg'']"
    using runs [THEN conjunct1, THEN mp, OF c] unfolding e1 by blast
  then have 1: "\<exists>converted uploaded.
      convert ?rt ''POST'' demo_form = Some (Written (''Done'' @ [NL]), converted @ uploaded) \<and>
      concat uploaded
        = map PutReader [''page1.jpg'', ''thumbs/1.jpg'', ''big/1.jpg'',
                         ''page2.jpg'', ''thumbs/2.jpg'', ''big/2.jpg'']"
    by blast
  obtain converted uploaded where
    "convert_single ?rt ''POST'' demo_form
       = Some (Written (''Done'' @ [NL]), converted @ uploaded)"
    "concat uploaded = map PutReader [''page1-small.jpg'', ''page1.jpg'', ''page1-large.jpg'',
                                      ''page2-small.jpg'', ''page2.jpg'', ''page2-large.jpg'']"
    using runs [THEN conjunct2, THEN mp, OF d] unfolding e2 by blast
  then have 2: "\<exists>converted uploaded.
      convert_single ?rt ''POST'' demo_form
        = Some (Written (''Done'' @ [NL]), converted @ uploaded) \<and>
      concat uploaded
        = map PutReader [''page1-small.jpg'', ''page1.jpg'', ''page1-large.jpg'',
                         ''page2-small.jpg'', ''page2.jpg'', ''page2-large.jpg'']"
    by blast
  have np: "CHR ''%'' \<notin> set ''page''" by simp
  have 3: "insert_suffix ''-small'' (''page'' @ ''%d'' @ ''.jpg'')
             = ''page'' @ ''%d'' @ ''-small'' @ ''.jpg''"
    by (rule t [THEN conjunct2, THEN conjunct2, THEN conjunct2, THEN conjunct1, THEN mp, OF np])
  show ?thesis using 1 2 3 by (intro conjI)
qed

subsection \<open>Conversion workers\<close>

text \<open>
  When the Ghostscript call of a page fails, the worker logs the failure and returns: no
  resizer runs for that page, and no later page of its range is touched.
\<close>

lemma convertPagesToJPEGs_stops_at_gs_failure:
  assumes "firstPage \<le> lastPage"
    and "cmd_Run rt ''gs'' (gs_args rt pdfPath (fmt_Sprintf rt largeJPEGPath [IntArg firstPage])
           firstPage) = Some err"
  shows "convertPagesToJPEGs rt pdfPath jpegPath smallJPEGPath largeJPEGPath firstPage lastPage
         = Some [Exec ''gs'' (gs_args rt pdfPath (fmt_Sprintf rt largeJPEGPath [IntArg firstPage])
                   firstPage),
                 Log (''gs command failed: %s'' @ [NL]) err]"
  using assms by (subst convertPagesToJPEGs.simps) (simp add: convertPage_def Let_def)

text \<open>
  Once every worker has returned, the conversion coordinator returns the page count, and
  no error, whatever the workers did.
\<close>

lemma convertPDFToJPEGs_returns_page_count:
  assumes "getNumPages rt pdfPath = Inr numPages"
    and "convertPDFToJPEGs rt pdfPath jpegPath smallJPEGPath largeJPEGPath = Some (result, workers)"
  shows "result = Inr numPages"
  using assms by (auto simp: convertPDFToJPEGs_def split: option.splits)

text \<open>
  C4 holds for the Ghostscript call only. \<^verbatim>\<open>convertPagesToJPEGs\<close> calls
  \<^verbatim>\<open>resizeAndSaveImage\<close> as a statement and then tests the \<^verbatim>\<open>err\<close> of the Ghostscript
  call again, so a failure of the resizer is neither logged nor does it end the worker.
  Here every run of the resizer fails, and the worker of pages 1 and 2 still runs the
  second resizer of page 1 and all three commands of page 2, and logs nothing.
\<close>

theorem convertPagesToJPEGs_ignores_resizer_failure:
  "convertPagesToJPEGs resize_failing_runtime ''exam.pdf'' ''/tmp/x%d.jpg'' ''/tmp/x%d-small.jpg''
     ''/tmp/x%d-large.jpg'' 1 2
   = Some [Exec ''gs'' [''-dNOPAUSE'', ''-sDEVICE=jpeg'', ''-dFirstPage=1'', ''-dLastPage=1'',
                        ''-sOutputFile=/tmp/x1-large.jpg'', ''-dJPEGQ=90'', ''-r200'', ''-q'',
                        ''exam.pdf'', ''-c'', ''quit''],
           Exec ''convert'' [''-resize'', ''800x800'', ''/tmp/x1-large.jpg'', ''/tmp/x1.jpg''],
           Exec ''convert'' [''-resize'', ''300x300'', ''/tmp/x1.jpg'', ''/tmp/x1-small.jpg''],
           Exec ''gs'' [''-dNOPAUSE'', ''-sDEVICE=jpeg'', ''-dFirstPage=2'', ''-dLastPage=2'',
                        ''-sOutputFile=/tmp/x2-large.jpg'', ''-dJPEGQ=90'', ''-r200'', ''-q'',
                        ''exam.pdf'', ''-c'', ''quit''],
           Exec ''convert'' [''-resize'', ''800x800'', ''/tmp/x2-large.jpg'', ''/tmp/x2.jpg''],
           Exec ''convert'' [''-resize'', ''300x300'', ''/tmp/x2.jpg'', ''/tmp/x2-small.jpg'']] \<and>
   cmd_Run resize_failing_runtime ''convert''
     [''-resize'', ''800x800'', ''/tmp/x1-large.jpg'', ''/tmp/x1.jpg''] = Some ExitError"
  by code_simp

subsection \<open>Documents without pages\<close>

text \<open>
  C10, as stated, does not hold for every request: the upload coordinator validates the
  three remote templates before it looks at the page count, so with a page count of 0 and
  a request without \<^verbatim>\<open>s3JPEGPath\<close> it returns an error and the request fails.
\<close>

theorem no_pages_invalid_templates_counterexample:
  "getNumPages (quiet_runtime (''0'' @ [NL])) ''exam.pdf'' = Inr 0 \<and>
   uploadAllJPEGsToS3 (quiet_runtime (''0'' @ [NL])) [''s3PDFPath'' \<mapsto> [''exam.pdf'']]
       ''/tmp/x%d.jpg'' ''/tmp/x%d-small.jpg'' ''/tmp/x%d-large.jpg'' 0
     = Some (Some (ErrorString (''Must specify a JPEG path in the 's3JPEGPath' key.'' @ [NL])), []) \<and>
   convert (quiet_runtime (''0'' @ [NL])) ''POST'' [''s3PDFPath'' \<mapsto> [''exam.pdf'']]
     = Some (InternalServerError
               (ErrorString (''Must specify a JPEG path in the 's3JPEGPath' key.'' @ [NL])), [])"
  by code_simp

text \<open>
  C10, amended: the parser accepts zero and negative integers, and neither coordinator
  checks the count. If page counting returns \<open>numPages \<le> 0\<close>, the conversion coordinator
  starts no worker, runs no command and returns the count without error; the upload
  coordinator, when the three remote templates pass its validation, starts no worker,
  writes nothing to the store and returns without error; and the request is then answered
  with \<^verbatim>\<open>Done\<close>.
\<close>

theorem no_pages_no_workers:
  "(- (2 ^ 63) \<le> n \<and> n \<le> 0 \<and>
      cmd_Output rt ''gs'' (pagecount_args rt pdfPath) = Inr (itoa n @ [NL]) \<longrightarrow>
      getNumPages rt pdfPath = Inr n) \<and>
   (getNumPages rt pdfPath = Inr numPages \<and> numPages \<le> 0 \<longrightarrow>
      convertPDFToJPEGs rt pdfPath jpegPath smallJPEGPath largeJPEGPath = Some (Inr numPages, []) \<and>
      ((\<exists>a b c. Form ''s3JPEGPath'' = Some [a] \<and> Form ''s3SmallJPEGPath'' = Some [b] \<and>
                Form ''s3LargeJPEGPath'' = Some [c] \<and> strings_Contains a ''%d'' \<and>
                strings_Contains b ''%d'' \<and> strings_Contains c ''%d'') \<longrightarrow>
         uploadAllJPEGsToS3 rt Form jpegPath smallJPEGPath largeJPEGPath numPages = Some (None, []) \<and>
         (connectToS3 rt = None \<and> fetchPDF rt Form = Inr pdfPath \<longrightarrow>
            convert rt ''POST'' Form = Some (Written (''Done'' @ [NL]), []))))"
proof (intro conjI impI)
  assume "- (2 ^ 63) \<le> n \<and> n \<le> 0 \<and>
      cmd_Output rt ''gs'' (pagecount_args rt pdfPath) = Inr (itoa n @ [NL])"
  then show "getNumPages rt pdfPath = Inr n"
    using getNumPages_itoa [of rt pdfPath 0 n 1] by simp
next
  assume a: "getNumPages rt pdfPath = Inr numPages \<and> numPages \<le> 0"
  then have s: "\<And>per. spawn_ranges numPages per 1 = Some []"
    by (intro spawn_ranges_no_pages) simp
  show c: "convertPDFToJPEGs rt pdfPath jpegPath smallJPEGPath largeJPEGPath
             = Some (Inr numPages, [])"
    using a s by (simp add: convertPDFToJPEGs_def)
  assume "\<exists>a b c. Form ''s3JPEGPath'' = Some [a] \<and> Form ''s3SmallJPEGPath'' = Some [b] \<and>
                Form ''s3LargeJPEGPath'' = Some [c] \<and> strings_Contains a ''%d'' \<and>
                strings_Contains b ''%d'' \<and> strings_Contains c ''%d''"
  then obtain a b c where f: "Form ''s3JPEGPath'' = Some [a]" "Form ''s3SmallJPEGPath'' = Some [b]"
      "Form ''s3LargeJPEGPath'' = Some [c]" "strings_Contains a ''%d''"
      "strings_Contains b ''%d''" "strings_Contains c ''%d''" by blast
  have u: "\<And>j sm l. uploadAllJPEGsToS3 rt Form j sm l numPages = Some (None, [])"
    by (subst uploadAllJPEGsToS3_valid [OF f]) (simp add: s)
  show "uploadAllJPEGsToS3 rt Form jpegPath smallJPEGPath largeJPEGPath numPages = Some (None, [])"
    by (rule u)
  assume "connectToS3 rt = None \<and> fetchPDF rt Form = Inr pdfPath"
  then show "convert rt ''POST'' Form = Some (Written (''Done'' @ [NL]), [])"
    using a s u by (simp add: convert_def convertPDFToJPEGs_def Let_def)
qed

theorem no_pages_no_workers_witness:
  "getNumPages (quiet_runtime (''-3'' @ [NL])) ''exam.pdf'' = Inr (- 3) \<and>
   convertPDFToJPEGs (quiet_runtime (''-3'' @ [NL])) ''exam.pdf'' ''/tmp/x%d.jpg''
     ''/tmp/x%d-small.jpg'' ''/tmp/x%d-large.jpg'' = Some (Inr (- 3), []) \<and>
   uploadAllJPEGsToS3 (quiet_runtime (''-3'' @ [NL])) demo_form ''/tmp/x%d.jpg''
     ''/tmp/x%d-small.jpg'' ''/tmp/x%d-large.jpg'' (- 3) = Some (None, [])"
proof -
  let ?rt = "quiet_runtime (''-3'' @ [NL])"
  have i: "itoa (- 3) = ''-3''" by code_simp
  have o: "cmd_Output ?rt ''gs'' (pagecount_args ?rt ''exam.pdf'') = Inr (itoa (- 3) @ [NL])"
    by (simp add: quiet_runtime_def i)
  have g: "getNumPages ?rt ''exam.pdf'' = Inr (- 3)"
    using no_pages_no_workers [of "- 3" ?rt "''exam.pdf''"] o by simp
  have c: "strings_Contains ''page%d.jpg'' ''%d''" "strings_Contains ''thumbs/%d.jpg'' ''%d''"
    "strings_Contains ''big/%d.jpg'' ''%d''" by code_simp+
  have v: "\<exists>a b c. demo_form ''s3JPEGPath'' = Some [a] \<and> demo_form ''s3SmallJPEGPath'' = Some [b] \<and>
                demo_form ''s3LargeJPEGPath'' = Some [c] \<and> strings_Contains a ''%d'' \<and>
                strings_Contains b ''%d'' \<and> strings_Contains c ''%d''"
    using c by (simp add: demo_form_def)
  show ?thesis
    using no_pages_no_workers [of _ ?rt "''exam.pdf''" "- 3" "''/tmp/x%d.jpg''"
        "''/tmp/x%d-small.jpg''" "''/tmp/x%d-large.jpg''" demo_form] g v
    by simp
qed

end
